theory Spec2Isabelle
  imports Main "HOL-Library.AList"
begin

section \<open>Document model: JSON values in a store\<close>

text \<open>
  The Python code works on the objects that \<^verbatim>\<open>json.load\<close> builds: dicts and lists that
  are compared by identity (\<^verbatim>\<open>id(item)\<close>, \<^verbatim>\<open>value is child\<close>) and mutated in place.
  The model therefore keeps every dict and list in a store, addressed by a number that plays
  the role of \<^verbatim>\<open>id\<close>; a value is a scalar or a reference into the store.

  \<^item> JSON numbers are the integers (non-integral numbers, which Python reads as floats,
    are outside the model).
  \<^item> A dict is an association list in insertion order, as Python dicts iterate; the flag of
    \<open>JDict\<close> says whether the object is an instance of \<^verbatim>\<open>JSONTreeRoot\<close>.
  \<^item> Addresses are never reused: the store only grows.
\<close>

type_synonym addr = nat

datatype jval = JNull | JBool bool | JInt int | JStr string | JRef addr

datatype jcont = JDict bool "(string \<times> jval) list" | JList "jval list"

type_synonym heap = "jcont list"

text \<open>\<^verbatim>\<open>JSONTreeWalker._parents\<close>: the class-level cache from \<^verbatim>\<open>id(item)\<close> to the parent.\<close>

type_synonym pcache = "addr \<Rightarrow> addr option"

datatype jkey = Key string | Index nat

datatype error =
  ValueError | KeyError | IndexError | TypeError | AttributeError | RuntimeError | RecursionError

definition cell :: "heap \<Rightarrow> addr \<Rightarrow> jcont option" where
  "cell h a = (if a < length h then Some (h ! a) else None)"

fun cell_values :: "jcont \<Rightarrow> jval list" where
  "cell_values (JDict _ kvs) = map snd kvs"
| "cell_values (JList vs) = vs"

text \<open>\<^verbatim>\<open>is_json_container\<close>: \<^verbatim>\<open>isinstance(item, (dict, list))\<close>.\<close>

fun is_json_container :: "heap \<Rightarrow> jval \<Rightarrow> bool" where
  "is_json_container h (JRef a) = (a < length h)"
| "is_json_container h _ = False"

text \<open>\<^verbatim>\<open>is_object\<close>: \<^verbatim>\<open>isinstance(item, dict)\<close>, on an address.\<close>

definition is_object :: "heap \<Rightarrow> addr \<Rightarrow> bool" where
  "is_object h a = (case cell h a of Some (JDict _ _) \<Rightarrow> True | _ \<Rightarrow> False)"

text \<open>\<^verbatim>\<open>isinstance(topmost, JSONTreeRoot)\<close>.\<close>

definition is_root :: "heap \<Rightarrow> addr \<Rightarrow> bool" where
  "is_root h a = (case cell h a of Some (JDict r _) \<Rightarrow> r | _ \<Rightarrow> False)"

text \<open>
  \<^verbatim>\<open>_iter_json_children\<close>: the (key, child) pairs of a dict, the (index, child) pairs of a
  list. Its third branch raises \<^verbatim>\<open>ValueError\<close> for any other type; the argument type
  \<open>jcont\<close> holds containers only, and every caller passes a container
  (\<^verbatim>\<open>traverse\<close> checks its argument, \<^verbatim>\<open>_walk_down\<close> yields containers only).
\<close>

fun iter_json_children :: "jcont \<Rightarrow> (jkey \<times> jval) list" where
  "iter_json_children (JDict _ kvs) = map (\<lambda>(k, v). (Key k, v)) kvs"
| "iter_json_children (JList vs) = zip (map Index [0..<length vs]) vs"

section \<open>Tree walker\<close>

fun ref_in :: "heap \<Rightarrow> jval \<Rightarrow> addr option" where
  "ref_in h (JRef a) = (if a < length h then Some a else None)"
| "ref_in h _ = None"

text \<open>
  \<^verbatim>\<open>_walk_down\<close>: the container children of \<open>item\<close>, last child first, each one recorded in
  the parent cache. The generator is consumed whole by \<^verbatim>\<open>queue.extend\<close>, so all its cache
  writes have happened when the list of children is there.
\<close>

definition walk_down :: "heap \<Rightarrow> pcache \<Rightarrow> addr \<Rightarrow> addr list \<times> pcache" where
  "walk_down h c item =
     (case cell h item of
        None \<Rightarrow> ([], c)
      | Some cont \<Rightarrow>
          (let children = List.map_filter (\<lambda>(_, child). ref_in h child)
                            (rev (iter_json_children cont))
           in (children, fold (\<lambda>child c'. c'(child \<mapsto> item)) children c)))"

text \<open>
  \<^verbatim>\<open>gc.get_referrers(item)\<close>, filtered by \<^verbatim>\<open>is_json_container\<close>: the dicts and lists that
  hold a reference to \<open>item\<close>. The store holds the JSON containers only, so the frames, tuples
  and dicts of the interpreter that the runtime would also report are not there; the order
  of the result, which the runtime leaves open, is the order of addresses.
\<close>

definition referrers :: "heap \<Rightarrow> addr \<Rightarrow> addr list" where
  "referrers h item = filter (\<lambda>p. JRef item \<in> set (cell_values (h ! p))) [0..<length h]"

text \<open>Truth value of a container: non-empty.\<close>

definition truthy :: "heap \<Rightarrow> addr \<Rightarrow> bool" where
  "truthy h p = (case cell h p of Some cont \<Rightarrow> cell_values cont \<noteq> [] | None \<Rightarrow> False)"

text \<open>
  \<^verbatim>\<open>_walk_up\<close>: the cached parent when there is one (and it is truthy, as the walrus test
  demands), the referrers otherwise.
\<close>

definition walk_up :: "heap \<Rightarrow> pcache \<Rightarrow> addr \<Rightarrow> addr list" where
  "walk_up h c item =
     (case c item of
        Some p \<Rightarrow> if truthy h p then [p] else referrers h item
      | None \<Rightarrow> referrers h item)"

text \<open>The two functions the code passes as \<^verbatim>\<open>neighbour_func\<close>.\<close>

datatype nfunc = WalkUp | WalkDown

fun neighbours :: "heap \<Rightarrow> nfunc \<Rightarrow> pcache \<Rightarrow> addr \<Rightarrow> addr list \<times> pcache" where
  "neighbours h WalkUp c item = (walk_up h c item, c)"
| "neighbours h WalkDown c item = walk_down h c item"

lemma ref_in_valid: "ref_in h v = Some a \<Longrightarrow> a < length h"
  by (cases v) (auto split: if_splits)

lemma walk_down_valid: "a \<in> set (fst (walk_down h c item)) \<Longrightarrow> a < length h"
  by (auto simp: walk_down_def Let_def List.map_filter_def split: option.splits prod.splits
           intro: ref_in_valid)

lemma walk_up_valid: "a \<in> set (walk_up h c item) \<Longrightarrow> a < length h"
  by (auto simp: walk_up_def referrers_def truthy_def cell_def split: option.splits if_splits)

lemma neighbours_valid: "a \<in> set (fst (neighbours h nf c item)) \<Longrightarrow> a < length h"
  by (cases nf) (auto dest: walk_down_valid walk_up_valid)

text \<open>
  \<^verbatim>\<open>_traverse_graph\<close>: the explicit-stack search. The deque is a list whose head is the
  right end of the deque (\<^verbatim>\<open>pop\<close> takes the head; \<^verbatim>\<open>extend\<close> puts its arguments, in order,
  to the right, so the last neighbour ends up at the head). A chain is the tuple
  \<^verbatim>\<open>(item, *_)\<close>, kept as the pair of its first element and the rest. The result is the
  list of the chains yielded, and the parent cache after the run.
\<close>

function traverse_graph ::
  "heap \<Rightarrow> nfunc \<Rightarrow> pcache \<Rightarrow> (addr \<times> addr list) list \<Rightarrow> addr set
     \<Rightarrow> addr list list \<times> pcache" where
  "traverse_graph h nf c [] visited = ([], c)"
| "traverse_graph h nf c ((item, rest) # queue) visited =
     (if item \<in> visited then traverse_graph h nf c queue visited
      else
        (let nc = neighbours h nf c item;
             r = traverse_graph h nf (snd nc)
                   (rev (map (\<lambda>n. (n, item # rest)) (fst nc)) @ queue)
                   (insert item visited)
         in ((item # rest) # fst r, snd r)))"
  by pat_completeness auto

definition pending :: "heap \<Rightarrow> (addr \<times> addr list) list \<Rightarrow> addr set \<Rightarrow> addr set" where
  "pending h queue visited = ({..<length h} \<union> fst ` set queue) - visited"

lemma finite_pending: "finite (pending h queue visited)"
  by (simp add: pending_def)

lemma pending_pop: "pending h queue visited \<subseteq> pending h (x # queue) visited"
  by (auto simp: pending_def)

lemma pending_expand:
  assumes "item \<notin> visited" and "\<forall>n \<in> set ns. n < length h"
  shows "pending h (rev (map (\<lambda>n. (n, ch)) ns) @ queue) (insert item visited)
           \<subset> pending h ((item, rest) # queue) visited"
proof -
  have "item \<in> pending h ((item, rest) # queue) visited"
    using assms(1) by (simp add: pending_def)
  moreover have "item \<notin> pending h (rev (map (\<lambda>n. (n, ch)) ns) @ queue) (insert item visited)"
    by (simp add: pending_def)
  moreover have "pending h (rev (map (\<lambda>n. (n, ch)) ns) @ queue) (insert item visited)
                   \<subseteq> pending h ((item, rest) # queue) visited"
    using assms(2) by (auto simp: pending_def)
  ultimately show ?thesis by blast
qed

termination traverse_graph
proof (relation "measures [\<lambda>(h, nf, c, queue, visited). card (pending h queue visited),
                            \<lambda>(h, nf, c, queue, visited). length queue]")
  show "wf (measures [\<lambda>(h, nf, c, queue, visited). card (pending h queue visited),
                       \<lambda>(h :: heap, nf :: nfunc, c :: pcache,
                          queue :: (addr \<times> addr list) list, visited :: addr set). length queue])"
    by simp
next
  fix h :: heap and nf :: nfunc and c :: pcache and item :: addr and rest :: "addr list"
    and queue :: "(addr \<times> addr list) list" and visited :: "addr set"
  assume "item \<in> visited"
  have "card (pending h queue visited) \<le> card (pending h ((item, rest) # queue) visited)"
    by (rule card_mono [OF finite_pending pending_pop])
  then show "((h, nf, c, queue, visited), (h, nf, c, (item, rest) # queue, visited))
               \<in> measures [\<lambda>(h, nf, c, queue, visited). card (pending h queue visited),
                             \<lambda>(h, nf, c, queue, visited). length queue]"
    by auto
next
  fix h :: heap and nf :: nfunc and c :: pcache and item :: addr and rest :: "addr list"
    and queue :: "(addr \<times> addr list) list" and visited :: "addr set"
    and nc :: "addr list \<times> pcache"
  assume nv: "item \<notin> visited" and nc: "nc = neighbours h nf c item"
  have "\<forall>n \<in> set (fst nc). n < length h"
    using nc neighbours_valid by blast
  then have "card (pending h (rev (map (\<lambda>n. (n, item # rest)) (fst nc)) @ queue)
                     (insert item visited))
               < card (pending h ((item, rest) # queue) visited)"
    by (intro psubset_card_mono finite_pending pending_expand nv)
  then show "((h, nf, snd nc, rev (map (\<lambda>n. (n, item # rest)) (fst nc)) @ queue,
                insert item visited),
              (h, nf, c, (item, rest) # queue, visited))
               \<in> measures [\<lambda>(h, nf, c, queue, visited). card (pending h queue visited),
                             \<lambda>(h, nf, c, queue, visited). length queue]"
    by auto
qed


text \<open>\<^verbatim>\<open>pairwise\<close> (util.py, or \<^verbatim>\<open>itertools.pairwise\<close>): the adjacent pairs.\<close>

definition pairwise :: "'a list \<Rightarrow> ('a \<times> 'a) list" where
  "pairwise xs = zip xs (tl xs)"

fun top_is_root :: "heap \<Rightarrow> addr list \<Rightarrow> bool" where
  "top_is_root h [] = False"
| "top_is_root h (topmost # _) = is_root h topmost"

text \<open>
  \<^verbatim>\<open>parents\<close>: the first chain of the upward search whose topmost element is a
  \<^verbatim>\<open>JSONTreeRoot\<close>; its links go into the cache and the chain without \<open>item\<close> is returned.
  \<^verbatim>\<open>_walk_up\<close> writes nothing, so stopping at that chain or running the search to its end
  gives the same state.
\<close>

definition parents :: "heap \<Rightarrow> pcache \<Rightarrow> addr \<Rightarrow> addr list option \<times> pcache" where
  "parents h c item =
     (case find (top_is_root h) (fst (traverse_graph h WalkUp c [(item, [])] {})) of
        Some chain \<Rightarrow>
          (Some (butlast chain),
           fold (\<lambda>(parent, child) c'. c'(child \<mapsto> parent)) (pairwise chain) c)
      | None \<Rightarrow> (None, c))"

text \<open>
  \<^verbatim>\<open>traverse\<close>, consumed to its end: nothing unless \<open>start\<close> is a container
  (\<^verbatim>\<open>is_json_container\<close>), else the objects among the items the downward search yields.
\<close>

definition traverse :: "heap \<Rightarrow> pcache \<Rightarrow> jval \<Rightarrow> addr list \<times> pcache" where
  "traverse h c start =
     (case ref_in h start of
        None \<Rightarrow> ([], c)
      | Some s \<Rightarrow>
          (let r = traverse_graph h WalkDown c [(s, [])] {}
           in (filter (is_object h) (map hd (fst r)), snd r)))"

subsection \<open>Python equality of JSON values\<close>

text \<open>
  \<^verbatim>\<open>list.index\<close> compares with \<^verbatim>\<open>==\<close> (after an identity test), which on dicts and lists
  is structural. The recursion is bounded by fuel; \<open>None\<close> stands for the
  \<^verbatim>\<open>RecursionError\<close> that a cyclic value gives. \<^verbatim>\<open>True == 1\<close> and \<^verbatim>\<open>False == 0\<close> hold in
  Python.
\<close>

fun all_true :: "bool option list \<Rightarrow> bool option" where
  "all_true [] = Some True"
| "all_true (None # _) = None"
| "all_true (Some False # _) = Some False"
| "all_true (Some True # bs) = all_true bs"

fun scalar_eq :: "jval \<Rightarrow> jval \<Rightarrow> bool" where
  "scalar_eq (JBool b) (JInt i) = (i = (if b then 1 else 0))"
| "scalar_eq (JInt i) (JBool b) = (i = (if b then 1 else 0))"
| "scalar_eq v w = (v = w)"

fun py_eq :: "nat \<Rightarrow> heap \<Rightarrow> jval \<Rightarrow> jval \<Rightarrow> bool option" where
  "py_eq fuel h (JRef a) (JRef b) =
     (if a = b then Some True
      else (case fuel of
              0 \<Rightarrow> None
            | Suc n \<Rightarrow>
               (case (cell h a, cell h b) of
                  (Some (JDict _ kvs), Some (JDict _ kws)) \<Rightarrow>
                    if length kvs \<noteq> length kws then Some False
                    else all_true (map (\<lambda>(k, v). case map_of kws k of
                                                   None \<Rightarrow> Some False
                                                 | Some w \<Rightarrow> py_eq n h v w) kvs)
                | (Some (JList vs), Some (JList ws)) \<Rightarrow>
                    if length vs \<noteq> length ws then Some False
                    else all_true (map (\<lambda>(v, w). py_eq n h v w) (zip vs ws))
                | _ \<Rightarrow> Some False)))"
| "py_eq fuel h (JRef a) w = Some False"
| "py_eq fuel h v (JRef b) = Some False"
| "py_eq fuel h v w = Some (scalar_eq v w)"

text \<open>\<^verbatim>\<open>parent.index(child)\<close>: the first position whose element equals \<open>child\<close>.\<close>

fun list_index :: "heap \<Rightarrow> jval list \<Rightarrow> jval \<Rightarrow> nat \<Rightarrow> error + nat" where
  "list_index h [] v i = Inl ValueError"
| "list_index h (x # xs) v i =
     (case py_eq (length h) h x v of
        None \<Rightarrow> Inl RecursionError
      | Some True \<Rightarrow> Inr i
      | Some False \<Rightarrow> list_index h xs v (Suc i))"

subsection \<open>Paths\<close>

definition digit_char :: "nat \<Rightarrow> char" where
  "digit_char d = char_of (48 + d)"

text \<open>The decimal numeral of an index, as the f-string prints it.\<close>

fun show_nat :: "nat \<Rightarrow> string" where
  "show_nat n = (if n < 10 then [digit_char n] else show_nat (n div 10) @ [digit_char (n mod 10)])"

declare show_nat.simps [simp del]

text \<open>
  \<^verbatim>\<open>_get_json_key\<close>: for a dict, the first key whose value \<^emph>\<open>is\<close> the child
  (\<^verbatim>\<open>next\<close> on the exhausted generator raises \<^verbatim>\<open>StopIteration\<close>); for a list,
  \<^verbatim>\<open>parent.index(child)\<close>.
\<close>

datatype key_error = StopIteration | Raised error

definition get_json_key :: "heap \<Rightarrow> addr \<Rightarrow> addr \<Rightarrow> key_error + string" where
  "get_json_key h parent child =
     (case cell h parent of
        Some (JDict _ kvs) \<Rightarrow>
          (case find (\<lambda>(key, v). v = JRef child) kvs of
             Some (key, _) \<Rightarrow> Inr (CHR ''.'' # key)
           | None \<Rightarrow> Inl StopIteration)
      | Some (JList vs) \<Rightarrow>
          (case list_index h vs (JRef child) 0 of
             Inr i \<Rightarrow> Inr (CHR ''['' # show_nat i @ '']'')
           | Inl e \<Rightarrow> Inl (Raised e))
      | None \<Rightarrow> Inl (Raised ValueError))"

text \<open>
  The join over the generator expression of \<^verbatim>\<open>json_path\<close>. A \<^verbatim>\<open>StopIteration\<close> that leaves
  \<^verbatim>\<open>_get_json_key\<close> inside the generator expression reaches the caller as
  \<^verbatim>\<open>RuntimeError\<close>.
\<close>

fun join_keys :: "heap \<Rightarrow> (addr \<times> addr) list \<Rightarrow> error + string" where
  "join_keys h [] = Inr []"
| "join_keys h ((parent, child) # ps) =
     (case get_json_key h parent child of
        Inl StopIteration \<Rightarrow> Inl RuntimeError
      | Inl (Raised e) \<Rightarrow> Inl e
      | Inr k \<Rightarrow> (case join_keys h ps of Inl e \<Rightarrow> Inl e | Inr s \<Rightarrow> Inr (k @ s)))"

definition broken_json_path :: string where
  "broken_json_path = ''<broken_json_path>''"

text \<open>
  \<^verbatim>\<open>json_path\<close>: the test \<^verbatim>\<open>if parents\<close> sends both \<^verbatim>\<open>None\<close> and the empty tuple to the
  sentinel.
\<close>

definition json_path :: "heap \<Rightarrow> pcache \<Rightarrow> addr \<Rightarrow> (error + string) \<times> pcache" where
  "json_path h c item =
     (let r = parents h c item
      in (case fst r of
            None \<Rightarrow> Inr broken_json_path
          | Some [] \<Rightarrow> Inr broken_json_path
          | Some ps \<Rightarrow> join_keys h (pairwise (ps @ [item])),
          snd r))"

text \<open>
  The characters of \<^verbatim>\<open>\w\<close> and \<^verbatim>\<open>\d\<close>. A \<open>char\<close> is a byte; the bytes below 128 are
  classified as Python classifies the ASCII characters, the others count as no word
  character (Python's \<^verbatim>\<open>\w\<close> also accepts the letters and digits beyond ASCII).
\<close>

definition is_digit :: "char \<Rightarrow> bool" where
  "is_digit ch = (let n = (of_char ch :: nat) in 48 \<le> n \<and> n \<le> 57)"

definition is_word :: "char \<Rightarrow> bool" where
  "is_word ch = (let n = (of_char ch :: nat)
                 in (48 \<le> n \<and> n \<le> 57) \<or> (65 \<le> n \<and> n \<le> 90) \<or> (97 \<le> n \<and> n \<le> 122) \<or> n = 95)"

text \<open>\<^verbatim>\<open>int(index)\<close> on a string of decimal digits.\<close>

definition int_of_digits :: "string \<Rightarrow> nat" where
  "int_of_digits ds = foldl (\<lambda>n ch. 10 * n + (of_char ch - 48)) 0 ds"

text \<open>
  \<^verbatim>\<open>parse_json_path\<close>: \<^verbatim>\<open>findall\<close> with the pattern \<^verbatim>\<open>\.?(\w+)|\[(\d+)\]\<close>, scanning from
  left to right. At each position the first alternative is tried (an optional dot, then the
  longest run of word characters), then the second (a bracketed run of digits); where
  neither matches, the scan moves on by one character.
\<close>

function parse_json_path :: "string \<Rightarrow> jkey list" where
  "parse_json_path [] = []"
| "parse_json_path (ch # cs) =
     (if ch = CHR ''.'' \<and> takeWhile is_word cs \<noteq> []
        then Key (takeWhile is_word cs) # parse_json_path (dropWhile is_word cs)
      else if is_word ch
        then Key (ch # takeWhile is_word cs) # parse_json_path (dropWhile is_word cs)
      else if ch = CHR ''['' \<and> takeWhile is_digit cs \<noteq> []
              \<and> take 1 (dropWhile is_digit cs) = '']''
        then Index (int_of_digits (takeWhile is_digit cs))
               # parse_json_path (drop 1 (dropWhile is_digit cs))
      else parse_json_path cs)"
  by pat_completeness auto

termination parse_json_path
  by (relation "measure length")
     (auto simp: less_Suc_eq_le length_dropWhile_le intro: le_trans [OF diff_le_self])

declare parse_json_path.simps(2) [simp del]

subsection \<open>Locating by path\<close>

text \<open>
  \<^verbatim>\<open>item[key]\<close>. A dict of a JSON document has string keys, so an integer key is a
  \<^verbatim>\<open>KeyError\<close>; a list takes integers only; a string can be indexed by an integer; every
  other value is not subscriptable.
\<close>

fun getitem :: "heap \<Rightarrow> jval \<Rightarrow> jkey \<Rightarrow> error + jval" where
  "getitem h (JRef a) key =
     (case cell h a of
        Some (JDict _ kvs) \<Rightarrow>
          (case key of
             Key k \<Rightarrow> (case map_of kvs k of Some v \<Rightarrow> Inr v | None \<Rightarrow> Inl KeyError)
           | Index n \<Rightarrow> Inl KeyError)
      | Some (JList vs) \<Rightarrow>
          (case key of
             Key k \<Rightarrow> Inl TypeError
           | Index n \<Rightarrow> if n < length vs then Inr (vs ! n) else Inl IndexError)
      | None \<Rightarrow> Inl TypeError)"
| "getitem h (JStr s) (Index n) = (if n < length s then Inr (JStr [s ! n]) else Inl IndexError)"
| "getitem h _ _ = Inl TypeError"

fun locate_keys :: "heap \<Rightarrow> jval \<Rightarrow> jkey list \<Rightarrow> error + jval option" where
  "locate_keys h item [] = Inr (Some item)"
| "locate_keys h item (key # keys) =
     (case getitem h item key of
        Inr v \<Rightarrow> locate_keys h v keys
      | Inl e \<Rightarrow> if e = IndexError \<or> e = KeyError then Inr None else Inl e)"

text \<open>
  \<^verbatim>\<open>JSONTree.locate\<close> on the tree whose root object is at \<open>tree\<close>. The
  \<^verbatim>\<open>functools.cache\<close> around it only matters when the same path is asked twice.
\<close>

definition locate :: "heap \<Rightarrow> addr \<Rightarrow> string \<Rightarrow> error + jval option" where
  "locate h tree path = locate_keys h (JRef tree) (parse_json_path path)"


section \<open>Filtered deletion\<close>

text \<open>
  Python sets and dict keys hold hashable values, compared with \<^verbatim>\<open>==\<close>: a dict or list
  is unhashable (\<^verbatim>\<open>TypeError\<close>), and \<^verbatim>\<open>True\<close>, \<^verbatim>\<open>False\<close> fall together with \<^verbatim>\<open>1\<close>,
  \<^verbatim>\<open>0\<close>. A member of a set is kept as the representative \<open>hash_key\<close> gives.
\<close>

fun hash_key :: "jval \<Rightarrow> error + jval" where
  "hash_key (JRef a) = Inl TypeError"
| "hash_key (JBool b) = Inr (JInt (if b then 1 else 0))"
| "hash_key v = Inr v"

text \<open>\<^verbatim>\<open>del item_list[index]\<close>.\<close>

definition del_item :: "'a list \<Rightarrow> nat \<Rightarrow> error + 'a list" where
  "del_item xs i = (if i < length xs then Inr (take i xs @ drop (Suc i) xs) else Inl IndexError)"

text \<open>The second loop of \<^verbatim>\<open>filter_out\<close>, over the indices it is given in order.\<close>

fun del_items :: "'a list \<Rightarrow> nat list \<Rightarrow> error + 'a list" where
  "del_items xs [] = Inr xs"
| "del_items xs (i # is) =
     (case del_item xs i of Inl e \<Rightarrow> Inl e | Inr ys \<Rightarrow> del_items ys is)"

text \<open>
  The first loop of \<^verbatim>\<open>filter_out\<close>, from position \<open>index\<close> on: \<open>to_delete\<close> collects the
  positions of the items the predicate rejects, \<open>valid_uids\<close> (when given) the \<^verbatim>\<open>item['uid']\<close>
  of the items it accepts. \<open>filter_func\<close> is whatever callable the caller passes. While
  this loop runs nothing changes but the set \<open>valid_uids\<close>, so what the call answers is a
  function of that set as it stands and of the item: the lambdas of cli.py read the very set
  they pass as \<open>valid_uids\<close>. The call may raise, and then \<^verbatim>\<open>filter_out\<close> raises.
\<close>

fun filter_scan ::
  "heap \<Rightarrow> (jval set option \<Rightarrow> jval \<Rightarrow> error + bool) \<Rightarrow> jval set option \<Rightarrow> jval list \<Rightarrow> nat \<Rightarrow> nat list
     \<Rightarrow> error + (nat list \<times> jval set option)" where
  "filter_scan h filter_func valid_uids [] index to_delete = Inr (to_delete, valid_uids)"
| "filter_scan h filter_func valid_uids (item # items) index to_delete =
     (case filter_func valid_uids item of
        Inl e \<Rightarrow> Inl e
      | Inr accepted \<Rightarrow>
          if accepted then
            (case valid_uids of
               None \<Rightarrow> filter_scan h filter_func None items (Suc index) to_delete
             | Some uids \<Rightarrow>
                 (case getitem h item (Key ''uid'') of
                    Inl e \<Rightarrow> Inl e
                  | Inr uid \<Rightarrow>
                      (case hash_key uid of
                         Inl e \<Rightarrow> Inl e
                       | Inr k \<Rightarrow> filter_scan h filter_func (Some (insert k uids)) items
                                   (Suc index) to_delete)))
          else filter_scan h filter_func valid_uids items (Suc index) (to_delete @ [index]))"

text \<open>
  \<^verbatim>\<open>CountryData.filter_out\<close> on the list stored at \<open>item_list\<close>: the new store, the returned
  \<open>to_delete\<close> and the set \<open>valid_uids\<close> after the call. The callers pass lists; a dict in
  that place is answered with \<^verbatim>\<open>TypeError\<close> here.
\<close>

definition filter_out ::
  "heap \<Rightarrow> addr \<Rightarrow> (jval set option \<Rightarrow> jval \<Rightarrow> error + bool) \<Rightarrow> jval set option
     \<Rightarrow> error + (heap \<times> nat list \<times> jval set option)" where
  "filter_out h item_list filter_func valid_uids =
     (case cell h item_list of
        Some (JList items) \<Rightarrow>
          (case filter_scan h filter_func valid_uids items 0 [] of
             Inl e \<Rightarrow> Inl e
           | Inr (to_delete, uids) \<Rightarrow>
               (case del_items items (rev to_delete) of
                  Inl e \<Rightarrow> Inl e
                | Inr items' \<Rightarrow> Inr (h[item_list := JList items'], to_delete, uids)))
      | _ \<Rightarrow> Inl TypeError)"

text \<open>The uid that \<^verbatim>\<open>valid_uids.add(item['uid'])\<close> adds for an item, when that succeeds.\<close>

definition uid_key :: "heap \<Rightarrow> jval \<Rightarrow> jval option" where
  "uid_key h item =
     (case getitem h item (Key ''uid'') of
        Inl e \<Rightarrow> None
      | Inr uid \<Rightarrow> (case hash_key uid of Inl e \<Rightarrow> None | Inr k \<Rightarrow> Some k))"

text \<open>
  What the claim speaks of, written without the two loops. \<open>verdicts\<close> lists the answers of
  the predicate, each element asked in list order with the set as the accepted elements
  before it have left it (an answer that raises ends the list with that error); \<open>kept\<close> are
  the elements with the answer \<^verbatim>\<open>True\<close>, \<open>rejected\<close> the positions with the answer
  \<^verbatim>\<open>False\<close>.
\<close>

definition add_uid :: "heap \<Rightarrow> jval set option \<Rightarrow> jval \<Rightarrow> jval set option" where
  "add_uid h valid_uids item =
     (case valid_uids of
        None \<Rightarrow> None
      | Some uids \<Rightarrow> (case uid_key h item of None \<Rightarrow> Some uids | Some k \<Rightarrow> Some (insert k uids)))"

fun verdicts ::
  "heap \<Rightarrow> (jval set option \<Rightarrow> jval \<Rightarrow> error + bool) \<Rightarrow> jval set option \<Rightarrow> jval list
     \<Rightarrow> error + bool list" where
  "verdicts h p valid_uids [] = Inr []"
| "verdicts h p valid_uids (x # xs) =
     (case p valid_uids x of
        Inl e \<Rightarrow> Inl e
      | Inr b \<Rightarrow>
          (case verdicts h p (if b then add_uid h valid_uids x else valid_uids) xs of
             Inl e \<Rightarrow> Inl e
           | Inr bs \<Rightarrow> Inr (b # bs)))"

definition kept :: "'a list \<Rightarrow> bool list \<Rightarrow> 'a list" where
  "kept xs bs = map fst (filter snd (zip xs bs))"

definition rejected :: "bool list \<Rightarrow> nat list" where
  "rejected bs = filter (\<lambda>i. \<not> bs ! i) [0..<length bs]"


section \<open>Catalog\<close>

text \<open>
  \<^verbatim>\<open>JSONCatalog\<close>. \<open>items\<close> is the dict from \<^verbatim>\<open>id(item)\<close> to the item, kept as the set of
  its keys (the value under a key is the object with that identity); \<open>indexes\<close> maps each
  configured attribute to its dict from values to sets of identities, \<open>attrs\<close> being the
  keys of that dict in their order; \<open>values'\<close> is the dict \<^verbatim>\<open>self.values\<close> from an identity
  to the attribute values recorded for it.
\<close>

record catalog =
  items :: "addr set"
  attrs :: "string list"
  indexes :: "string \<Rightarrow> (jval \<Rightarrow> addr set option) option"
  values' :: "addr \<Rightarrow> (string \<times> jval) list option"

text \<open>\<^verbatim>\<open>JSONCatalog.__init__\<close> without data.\<close>

definition new_catalog :: "string list \<Rightarrow> catalog" where
  "new_catalog as =
     \<lparr>items = {}, attrs = remdups as,
      indexes = (\<lambda>attr. if attr \<in> set as then Some Map.empty else None),
      values' = Map.empty\<rparr>"

text \<open>\<^verbatim>\<open>clear\<close>.\<close>

definition clear :: "catalog \<Rightarrow> catalog" where
  "clear cat =
     cat\<lparr>items := {}, indexes := (\<lambda>attr. map_option (\<lambda>_. Map.empty) (indexes cat attr)),
         values' := Map.empty\<rparr>"

text \<open>The loop of \<^verbatim>\<open>unindex\<close> over the recorded (attribute, value) pairs.\<close>

fun unindex_attrs ::
  "(string \<Rightarrow> (jval \<Rightarrow> addr set option) option) \<Rightarrow> addr \<Rightarrow> (string \<times> jval) list
     \<Rightarrow> error + (string \<Rightarrow> (jval \<Rightarrow> addr set option) option)" where
  "unindex_attrs ix object_id [] = Inr ix"
| "unindex_attrs ix object_id ((attr, v) # rest) =
     (case ix attr of
        None \<Rightarrow> Inl KeyError
      | Some index \<Rightarrow>
          (case index v of
             None \<Rightarrow> Inl KeyError
           | Some object_ids \<Rightarrow>
               (let index' = (if object_ids - {object_id} = {} then index(v := None)
                              else index(v \<mapsto> object_ids - {object_id}))
                in unindex_attrs (ix(attr \<mapsto> index')) object_id rest)))"

definition unindex :: "catalog \<Rightarrow> addr \<Rightarrow> error + catalog" where
  "unindex cat item =
     (if item \<notin> items cat then Inr cat
      else (case values' cat item of
              None \<Rightarrow> Inl KeyError
            | Some recorded \<Rightarrow>
                (case unindex_attrs (indexes cat) item recorded of
                   Inl e \<Rightarrow> Inl e
                 | Inr ix \<Rightarrow>
                     Inr (cat\<lparr>items := items cat - {item}, indexes := ix,
                              values' := (values' cat)(item := None)\<rparr>))))"

text \<open>
  The loop of \<^verbatim>\<open>index\<close> over the configured attributes: \<^verbatim>\<open>item.get(attr, NOT_PRESENT)\<close>
  needs a dict (\<^verbatim>\<open>AttributeError\<close> on a list), and the value has to be hashable to
  become a key of the index.
\<close>

fun index_attrs ::
  "heap \<Rightarrow> addr \<Rightarrow> string list
     \<Rightarrow> (string \<Rightarrow> (jval \<Rightarrow> addr set option) option) \<times> (string \<times> jval) list
     \<Rightarrow> error + ((string \<Rightarrow> (jval \<Rightarrow> addr set option) option) \<times> (string \<times> jval) list)" where
  "index_attrs h item [] (ix, recorded) = Inr (ix, recorded)"
| "index_attrs h item (attr # rest) (ix, recorded) =
     (case cell h item of
        Some (JDict _ kvs) \<Rightarrow>
          (case map_of kvs attr of
             None \<Rightarrow> index_attrs h item rest (ix, recorded)
           | Some v \<Rightarrow>
               (case hash_key v of
                  Inl e \<Rightarrow> Inl e
                | Inr k \<Rightarrow>
                    (case ix attr of
                       None \<Rightarrow> Inl KeyError
                     | Some index \<Rightarrow>
                         (let object_ids = (case index k of None \<Rightarrow> {} | Some s \<Rightarrow> s)
                          in index_attrs h item rest
                               (ix(attr \<mapsto> index(k \<mapsto> insert item object_ids)),
                                AList.update attr k recorded)))))
      | _ \<Rightarrow> Inl AttributeError)"

definition index :: "heap \<Rightarrow> catalog \<Rightarrow> addr \<Rightarrow> error + catalog" where
  "index h cat item =
     (case (if item \<in> items cat then unindex cat item else Inr cat) of
        Inl e \<Rightarrow> Inl e
      | Inr cat1 \<Rightarrow>
          (case index_attrs h item (attrs cat1)
                  (indexes cat1, (case values' cat1 item of None \<Rightarrow> [] | Some r \<Rightarrow> r)) of
             Inl e \<Rightarrow> Inl e
           | Inr (ix, recorded) \<Rightarrow>
               Inr (cat1\<lparr>items := insert item (items cat1), indexes := ix,
                         values' := (values' cat1)(item \<mapsto> recorded)\<rparr>)))"

text \<open>\<^verbatim>\<open>index_iterable\<close>.\<close>

fun index_iterable :: "heap \<Rightarrow> catalog \<Rightarrow> addr list \<Rightarrow> error + catalog" where
  "index_iterable h cat [] = Inr cat"
| "index_iterable h cat (item # data) =
     (case index h cat item of Inl e \<Rightarrow> Inl e | Inr cat' \<Rightarrow> index_iterable h cat' data)"

text \<open>
  The loop of \<^verbatim>\<open>search\<close> over the criteria, in the order of the keyword arguments;
  \<open>result\<close> is \<open>None\<close> as long as Python's \<^verbatim>\<open>result\<close> is. The value is the set of
  identities the final comprehension runs over (empty for each \<^verbatim>\<open>return []\<close>).
\<close>

fun search_ids :: "catalog \<Rightarrow> (string \<times> jval) list \<Rightarrow> addr set option \<Rightarrow> error + addr set" where
  "search_ids cat [] result = Inr (case result of None \<Rightarrow> {} | Some r \<Rightarrow> r)"
| "search_ids cat ((attr, v) # criteria) result =
     (case indexes cat attr of
        None \<Rightarrow> Inl KeyError
      | Some idx \<Rightarrow>
          (case hash_key v of
             Inl e \<Rightarrow> Inl e
           | Inr k \<Rightarrow>
               (case idx k of
                  None \<Rightarrow> Inr {}
                | Some object_ids \<Rightarrow>
                    if object_ids = {} then Inr {}
                    else (let result' = (case result of None \<Rightarrow> object_ids
                                         | Some r \<Rightarrow> r \<inter> object_ids)
                          in if result' = {} then Inr {}
                             else search_ids cat criteria (Some result')))))"

text \<open>
  \<^verbatim>\<open>search\<close>: the items found, as a list. Python iterates the resulting set in the order of
  its hash table; the model lists it by ascending identity, and no property below depends on
  that order.
\<close>

definition search :: "catalog \<Rightarrow> (string \<times> jval) list \<Rightarrow> error + addr list" where
  "search cat criteria =
     (case search_ids cat criteria None of
        Inl e \<Rightarrow> Inl e
      | Inr ids \<Rightarrow> if ids \<subseteq> items cat then Inr (sorted_list_of_set ids) else Inl KeyError)"

text \<open>\<^verbatim>\<open>first\<close>: the first item of \<^verbatim>\<open>search\<close>, or \<^verbatim>\<open>None\<close>.\<close>

definition first :: "catalog \<Rightarrow> (string \<times> jval) list \<Rightarrow> error + addr option" where
  "first cat criteria =
     (case search cat criteria of
        Inl e \<Rightarrow> Inl e
      | Inr [] \<Rightarrow> Inr None
      | Inr (item # _) \<Rightarrow> Inr (Some item))"

text \<open>
  A history of calls on one catalog. Between the calls the items may change, so each
  \<^verbatim>\<open>index\<close> call comes with the store of its moment.
\<close>

datatype cat_op = CallIndex heap addr | CallUnindex addr

fun run_op :: "catalog \<Rightarrow> cat_op \<Rightarrow> error + catalog" where
  "run_op cat (CallIndex h item) = index h cat item"
| "run_op cat (CallUnindex item) = unindex cat item"

fun run_ops :: "catalog \<Rightarrow> cat_op list \<Rightarrow> error + catalog" where
  "run_ops cat [] = Inr cat"
| "run_ops cat (op # ops) =
     (case run_op cat op of Inl e \<Rightarrow> Inl e | Inr cat' \<Rightarrow> run_ops cat' ops)"

text \<open>
  What the specification says the catalog stands for, written without the indexes: the
  attribute values an item has at the moment it is registered, for the configured attributes
  it carries, and the registrations that a history leaves in force.
\<close>

definition attr_key :: "heap \<Rightarrow> addr \<Rightarrow> string \<Rightarrow> jval option" where
  "attr_key h item attr =
     (case cell h item of
        Some (JDict _ kvs) \<Rightarrow>
          (case map_of kvs attr of
             None \<Rightarrow> None
           | Some v \<Rightarrow> (case hash_key v of Inl e \<Rightarrow> None | Inr k \<Rightarrow> Some k))
      | _ \<Rightarrow> None)"

definition snapshot :: "string list \<Rightarrow> heap \<Rightarrow> addr \<Rightarrow> string \<Rightarrow> jval option" where
  "snapshot as h item attr = (if attr \<in> set as then attr_key h item attr else None)"

fun registered_after ::
  "string list \<Rightarrow> (addr \<Rightarrow> (string \<Rightarrow> jval option) option) \<Rightarrow> cat_op list
     \<Rightarrow> addr \<Rightarrow> (string \<Rightarrow> jval option) option" where
  "registered_after as m [] = m"
| "registered_after as m (CallIndex h item # ops) =
     registered_after as (m(item \<mapsto> snapshot as h item)) ops"
| "registered_after as m (CallUnindex item # ops) = registered_after as (m(item := None)) ops"

definition registered ::
  "string list \<Rightarrow> cat_op list \<Rightarrow> addr \<Rightarrow> (string \<Rightarrow> jval option) option" where
  "registered as ops = registered_after as Map.empty ops"

text \<open>The items a search finds, as a set (empty when the search raises).\<close>

definition search_set :: "catalog \<Rightarrow> (string \<times> jval) list \<Rightarrow> addr set" where
  "search_set cat criteria = (case search cat criteria of Inl e \<Rightarrow> {} | Inr found \<Rightarrow> set found)"

text \<open>
  For the properties of the catalog: the set of identities under a value of an attribute
  (empty when the key is missing), and the invariant that ties the three dicts together.
\<close>

definition bucket_of ::
  "(string \<Rightarrow> (jval \<Rightarrow> addr set option) option) \<Rightarrow> string \<Rightarrow> jval \<Rightarrow> addr set" where
  "bucket_of ix attr k =
     (case ix attr of None \<Rightarrow> {} | Some idx \<Rightarrow> (case idx k of None \<Rightarrow> {} | Some s \<Rightarrow> s))"

definition cat_inv :: "catalog \<Rightarrow> bool" where
  "cat_inv cat \<longleftrightarrow>
     finite (items cat) \<and> distinct (attrs cat) \<and> dom (indexes cat) = set (attrs cat)
     \<and> dom (values' cat) = items cat
     \<and> (\<forall>i r. values' cat i = Some r \<longrightarrow>
           fst ` set r \<subseteq> set (attrs cat) \<and> distinct (map fst r))
     \<and> (\<forall>attr k. attr \<in> set (attrs cat) \<longrightarrow>
           bucket_of (indexes cat) attr k
             = {i. \<exists>r. values' cat i = Some r \<and> map_of r attr = Some k})"

definition recorded_of :: "catalog \<Rightarrow> addr \<Rightarrow> (string \<Rightarrow> jval option) option" where
  "recorded_of cat i = map_option map_of (values' cat i)"

text \<open>The identities filed under one criterion of a search.\<close>

definition crit_bucket :: "catalog \<Rightarrow> string \<times> jval \<Rightarrow> addr set" where
  "crit_bucket cat c =
     (case hash_key (snd c) of
        Inl e \<Rightarrow> {}
      | Inr k \<Rightarrow> bucket_of (indexes cat) (fst c) k)"

text \<open>
  When \<^verbatim>\<open>index\<close> does not raise: the item is a dict, and none of the configured
  attributes it carries holds a dict or a list.
\<close>

definition indexable :: "string list \<Rightarrow> heap \<Rightarrow> addr \<Rightarrow> bool" where
  "indexable as h item =
     (case cell h item of
        Some (JDict _ kvs) \<Rightarrow>
          list_all (\<lambda>attr. case map_of kvs attr of Some (JRef _) \<Rightarrow> False | _ \<Rightarrow> True) as
      | _ \<Rightarrow> False)"

fun op_ok :: "string list \<Rightarrow> cat_op \<Rightarrow> bool" where
  "op_ok as (CallIndex h item) = indexable as h item"
| "op_ok as (CallUnindex item) = True"

section \<open>Documents as trees\<close>

text \<open>
  The tree invariant of the specification: reachable from a container, the structure is a
  tree. A \<open>jtree\<close> describes what hangs below a value: a scalar leaf, or a container with
  its address, its kind (for a dict the \<^verbatim>\<open>JSONTreeRoot\<close> flag and the keys, in order) and
  the subtrees of its members. \<open>rep h t\<close> says that the store really holds this tree, and
  \<open>caddrs t\<close> lists the containers of the tree in document order (a container before its
  members, the members from left to right). The tree invariant is \<open>rep h t\<close> together with
  \<open>distinct (caddrs t)\<close>: no container occurs twice.
\<close>

datatype jshape = SDict bool "string list" | SList

datatype jtree = TLeaf jval | TNode addr jshape "jtree list"

fun tval :: "jtree \<Rightarrow> jval" where
  "tval (TLeaf v) = v"
| "tval (TNode a _ _) = JRef a"

fun is_node :: "jtree \<Rightarrow> bool" where
  "is_node (TLeaf _) = False"
| "is_node (TNode _ _ _) = True"

fun node_cell :: "jshape \<Rightarrow> jval list \<Rightarrow> jcont" where
  "node_cell (SDict r ks) vs = JDict r (zip ks vs)"
| "node_cell SList vs = JList vs"

fun shape_ok :: "jshape \<Rightarrow> nat \<Rightarrow> bool" where
  "shape_ok (SDict r ks) n = (length ks = n \<and> distinct ks)"
| "shape_ok SList n = True"

fun rep :: "heap \<Rightarrow> jtree \<Rightarrow> bool" where
  "rep h (TLeaf v) = (case v of JRef _ \<Rightarrow> False | _ \<Rightarrow> True)"
| "rep h (TNode a sh ts) =
     (cell h a = Some (node_cell sh (map tval ts)) \<and> shape_ok sh (length ts)
      \<and> list_all (rep h) ts)"

fun caddrs :: "jtree \<Rightarrow> addr list" where
  "caddrs (TLeaf _) = []"
| "caddrs (TNode a _ ts) = a # concat (map caddrs ts)"

fun tsize :: "jtree \<Rightarrow> nat" where
  "tsize (TLeaf _) = 1"
| "tsize (TNode _ _ ts) = Suc (sum_list (map tsize ts))"

definition kids :: "jtree list \<Rightarrow> addr list" where
  "kids ts = concat (map (\<lambda>t. case t of TLeaf _ \<Rightarrow> [] | TNode a _ _ \<Rightarrow> [a]) ts)"

text \<open>The address of a container tree.\<close>

fun taddr :: "jtree \<Rightarrow> addr" where
  "taddr (TNode a _ _) = a"
| "taddr (TLeaf _) = 0"

section \<open>Containment and reachability\<close>

text \<open>
  \<open>contains h p a\<close>: the container at \<open>p\<close> holds a reference to the container at \<open>a\<close>.
  \<open>reaches h\<close> is the reflexive transitive closure: \<open>(r, x) \<in> reaches h\<close> says that
  \<open>x\<close> is reachable from \<open>r\<close>. A parent cache is \<open>fresh\<close> when every entry names a
  container that holds the item now (no entry is stale).
\<close>

definition contains :: "heap \<Rightarrow> addr \<Rightarrow> addr \<Rightarrow> bool" where
  "contains h p a \<longleftrightarrow> p < length h \<and> JRef a \<in> set (cell_values (h ! p))"

definition reaches :: "heap \<Rightarrow> (addr \<times> addr) set" where
  "reaches h = {(p, a). contains h p a}\<^sup>*"

definition fresh :: "heap \<Rightarrow> pcache \<Rightarrow> bool" where
  "fresh h c \<longleftrightarrow> (\<forall>a p. c a = Some p \<longrightarrow> contains h p a)"

section \<open>Depth-first pre-order\<close>

text \<open>
  What the claim about \<^verbatim>\<open>traverse\<close> speaks of, written as the recursive search:
  \<open>members h a\<close> are the containers that the container at \<open>a\<close> holds, from left to right;
  \<open>preorder h todo seen out seen'\<close> says that visiting the containers \<open>todo\<close> in order, each
  one followed at once by its members and all below them, and passing over the containers
  in \<open>seen\<close> and those visited on the way, visits \<open>out\<close> and ends with \<open>seen'\<close> visited.
\<close>

definition members :: "heap \<Rightarrow> addr \<Rightarrow> addr list" where
  "members h a =
     (case cell h a of None \<Rightarrow> [] | Some cont \<Rightarrow> List.map_filter (ref_in h) (cell_values cont))"

inductive preorder :: "heap \<Rightarrow> addr list \<Rightarrow> addr set \<Rightarrow> addr list \<Rightarrow> addr set \<Rightarrow> bool" where
  pre_done: "preorder h [] seen [] seen"
| pre_skip: "a \<in> seen \<Longrightarrow> preorder h todo seen out seen' \<Longrightarrow> preorder h (a # todo) seen out seen'"
| pre_visit: "a \<notin> seen \<Longrightarrow> preorder h (members h a) (insert a seen) out1 seen1 \<Longrightarrow>
              preorder h todo seen1 out2 seen2 \<Longrightarrow>
              preorder h (a # todo) seen (a # out1 @ out2) seen2"

code_pred preorder .

section \<open>Example documents\<close>

text \<open>
  The list of the filtered-deletion example: three objects with a uid and a flag, and the
  predicate that reads the flag.
\<close>

definition ex_items :: heap where
  "ex_items = [JList [JRef 1, JRef 2, JRef 3],
               JDict False [(''uid'', JInt 1), (''keep'', JBool True)],
               JDict False [(''uid'', JInt 2), (''keep'', JBool False)],
               JDict False [(''uid'', JInt 3), (''keep'', JBool True)]]"

definition keep :: "heap \<Rightarrow> jval set option \<Rightarrow> jval \<Rightarrow> error + bool" where
  "keep h valid_uids item =
     (case getitem h item (Key ''keep'') of Inl e \<Rightarrow> Inl e | Inr v \<Rightarrow> Inr (v = JBool True))"

text \<open>
  Three nodes chained by \<^verbatim>\<open>parent_uid\<close>, listed parents first at address 0 and children
  first at address 4, and the predicate that the \<^verbatim>\<open>filter\<close> command passes for nodes
  (cli.py:81-85), which reads the set it also passes as \<^verbatim>\<open>valid_uids\<close>:
  \<^verbatim>\<open>node['uid'] in uids or node.get('parent_uid') in uids or
  node.get('template_node_uid') in uids\<close>.
\<close>

definition ex_sector :: heap where
  "ex_sector = [JList [JRef 1, JRef 2, JRef 3],
                JDict False [(''uid'', JStr ''a'')],
                JDict False [(''uid'', JStr ''b''), (''parent_uid'', JStr ''a'')],
                JDict False [(''uid'', JStr ''c''), (''parent_uid'', JStr ''b'')],
                JList [JRef 3, JRef 2, JRef 1]]"

text \<open>\<^verbatim>\<open>node.get(attr)\<close>.\<close>

definition dict_get :: "heap \<Rightarrow> jval \<Rightarrow> string \<Rightarrow> error + jval" where
  "dict_get h node attr =
     (case node of
        JRef a \<Rightarrow>
          (case cell h a of
             Some (JDict _ kvs) \<Rightarrow> Inr (case map_of kvs attr of Some v \<Rightarrow> v | None \<Rightarrow> JNull)
           | _ \<Rightarrow> Inl AttributeError)
      | _ \<Rightarrow> Inl AttributeError)"

text \<open>\<^verbatim>\<open>value in uids\<close>, for a value whose evaluation may have raised.\<close>

definition in_uids :: "error + jval \<Rightarrow> jval set \<Rightarrow> error + bool" where
  "in_uids value uids =
     (case value of
        Inl e \<Rightarrow> Inl e
      | Inr v \<Rightarrow> (case hash_key v of Inl e \<Rightarrow> Inl e | Inr k \<Rightarrow> Inr (k \<in> uids)))"

text \<open>\<^verbatim>\<open>a or b\<close> on truth values: \<open>b\<close> is not evaluated when \<open>a\<close> is true or raises.\<close>

definition py_or :: "error + bool \<Rightarrow> error + bool \<Rightarrow> error + bool" where
  "py_or a b = (case a of Inl e \<Rightarrow> Inl e | Inr t \<Rightarrow> if t then Inr True else b)"

definition in_sector :: "heap \<Rightarrow> jval set option \<Rightarrow> jval \<Rightarrow> error + bool" where
  "in_sector h valid_uids node =
     (case valid_uids of
        None \<Rightarrow> Inl TypeError
      | Some uids \<Rightarrow>
          py_or (in_uids (getitem h node (Key ''uid'')) uids)
            (py_or (in_uids (dict_get h node ''parent_uid'') uids)
               (in_uids (dict_get h node ''template_node_uid'') uids)))"

text \<open>Two nodes that share a name, for the catalog.\<close>

definition ex_nodes :: heap where
  "ex_nodes = [JDict False [(''uid'', JStr ''a''), (''name'', JStr ''n'')],
               JDict False [(''uid'', JStr ''b''), (''name'', JStr ''n'')]]"


text \<open>
  A list of two nodes, the first with a (still empty) list of child nodes, and the tree
  that describes it.
\<close>

definition ex_tree_heap :: heap where
  "ex_tree_heap = [JList [JRef 1, JRef 2],
                   JDict False [(''uid'', JStr ''a''), (''node'', JRef 3)],
                   JDict False [(''uid'', JStr ''b'')],
                   JList []]"

definition ex_tree :: jtree where
  "ex_tree = TNode 0 SList
               [TNode 1 (SDict False [''uid'', ''node'']) [TLeaf (JStr ''a''), TNode 3 SList []],
                TNode 2 (SDict False [''uid'']) [TLeaf (JStr ''b'')]]"

text \<open>
  A store that is not a tree: the list at 1 and the object at 0 both hold the object at 2,
  and the list holds the object at 0 that holds it.
\<close>

definition ex_shared :: heap where
  "ex_shared = [JDict False [(''x'', JRef 1), (''y'', JRef 2)],
                JList [JRef 2, JRef 0],
                JDict False [(''uid'', JStr ''a'')]]"

text \<open>
  A document \<^verbatim>\<open>{"a": [{"uid": 1}, {"uid": 2}]}\<close>, the same store after the first element
  of the list has been deleted, and the predicate that deletes it.
\<close>

definition ex_doc :: heap where
  "ex_doc = [JDict True [(''a'', JRef 1)], JList [JRef 2, JRef 3],
             JDict False [(''uid'', JInt 1)], JDict False [(''uid'', JInt 2)]]"

definition ex_doc_pruned :: heap where
  "ex_doc_pruned = [JDict True [(''a'', JRef 1)], JList [JRef 3],
                    JDict False [(''uid'', JInt 1)], JDict False [(''uid'', JInt 2)]]"

definition not_first :: "jval set option \<Rightarrow> jval \<Rightarrow> error + bool" where
  "not_first valid_uids v = Inr (v \<noteq> JRef 2)"

section \<open>Ancestor chains\<close>

text \<open>
  The selector \<^verbatim>\<open>_get_json_key\<close> prints for a key or an index.
\<close>

fun fmt_key :: "jkey \<Rightarrow> string" where
  "fmt_key (Key k) = CHR ''.'' # k"
| "fmt_key (Index i) = CHR ''['' # show_nat i @ '']''"

text \<open>
  \<open>good_step h p q\<close>: the edge from the container \<open>p\<close> to its member \<open>q\<close> is as the tree
  invariant and the path syntax want it. \<open>q\<close> has exactly one incoming edge, from \<open>p\<close>, and
  is not a \<^verbatim>\<open>JSONTreeRoot\<close>. If \<open>p\<close> is a dict, its keys are distinct (as in any Python
  dict) and the key of \<open>q\<close> is a non-empty run of word characters; if \<open>p\<close> is a list, the
  first element that equals \<open>q\<close> in the sense of \<^verbatim>\<open>==\<close> is \<open>q\<close> itself.
  \<open>good_chain\<close> asks this of every edge of a chain that runs from the top down to an item.
\<close>

definition good_step :: "heap \<Rightarrow> addr \<Rightarrow> addr \<Rightarrow> bool" where
  "good_step h p q \<longleftrightarrow>
     referrers h q = [p] \<and> \<not> is_root h q \<and>
     (case cell h p of
        Some (JDict _ kvs) \<Rightarrow>
          distinct (map fst kvs) \<and>
          (case find (\<lambda>(key, v). v = JRef q) kvs of
             Some (key, _) \<Rightarrow> key \<noteq> [] \<and> list_all is_word key
           | None \<Rightarrow> False)
      | Some (JList vs) \<Rightarrow>
          (case list_index h vs (JRef q) 0 of Inr i \<Rightarrow> vs ! i = JRef q | Inl e \<Rightarrow> False)
      | None \<Rightarrow> False)"

fun good_chain :: "heap \<Rightarrow> addr list \<Rightarrow> bool" where
  "good_chain h [] = False"
| "good_chain h [x] = True"
| "good_chain h (p # q # ps) = (good_step h p q \<and> good_chain h (q # ps))"

text \<open>The key under which \<^verbatim>\<open>_get_json_key\<close> finds \<open>q\<close> in \<open>p\<close>.\<close>

definition edge_key :: "heap \<Rightarrow> addr \<Rightarrow> addr \<Rightarrow> jkey" where
  "edge_key h p q =
     (case cell h p of
        Some (JDict _ kvs) \<Rightarrow>
          (case find (\<lambda>(key, v). v = JRef q) kvs of Some (key, _) \<Rightarrow> Key key | None \<Rightarrow> Key [])
      | Some (JList vs) \<Rightarrow>
          (case list_index h vs (JRef q) 0 of Inr i \<Rightarrow> Index i | Inl e \<Rightarrow> Index 0)
      | None \<Rightarrow> Key [])"

fun good_key :: "jkey \<Rightarrow> bool" where
  "good_key (Key k) = (k \<noteq> [] \<and> list_all is_word k)"
| "good_key (Index i) = True"

text \<open>The keys along a chain, and what separates two selectors in a path.\<close>

fun chain_keys :: "heap \<Rightarrow> addr list \<Rightarrow> jkey list" where
  "chain_keys h (p # q # ps) = edge_key h p q # chain_keys h (q # ps)"
| "chain_keys h _ = []"

definition sep_start :: "string \<Rightarrow> bool" where
  "sep_start s \<longleftrightarrow> s = [] \<or> hd s = CHR ''.'' \<or> hd s = CHR ''[''"

text \<open>
  A document with a key that is no word (\<^verbatim>\<open>{"a-b": {}}\<close>), and one with two equal
  elements in a list (\<^verbatim>\<open>{"a": [{}, {}]}\<close>).
\<close>

definition ex_dash :: heap where
  "ex_dash = [JDict True [(''a-b'', JRef 1)], JDict False []]"

definition ex_twins :: heap where
  "ex_twins = [JDict True [(''a'', JRef 1)], JList [JRef 2, JRef 3],
               JDict False [], JDict False []]"

section \<open>Properties of the tree walker\<close>

lemma traverse_graph_start:
  "fst (traverse_graph h nf c [(item, [])] {}) =
     [item] # fst (traverse_graph h nf (snd (neighbours h nf c item))
                    (rev (map (\<lambda>n. (n, [item])) (fst (neighbours h nf c item)))) {item})"
  by (simp add: Let_def)

text \<open>
  Claim C10. For the document root itself (an instance of \<^verbatim>\<open>JSONTreeRoot\<close>), whatever the
  parent cache holds, \<^verbatim>\<open>parents(root)\<close> is the empty chain and \<^verbatim>\<open>json_path(root)\<close> is the
  sentinel \<^verbatim>\<open><broken_json_path>\<close>: the sentinel is not kept for unreachable nodes.
\<close>

theorem root_path_is_sentinel:
  assumes "is_root h r"
  shows "fst (parents h c r) = Some [] \<and> fst (json_path h c r) = Inr ''<broken_json_path>''"
proof -
  have "find (top_is_root h) (fst (traverse_graph h WalkUp c [(r, [])] {})) = Some [r]"
    using assms by (simp add: Let_def)
  then have "fst (parents h c r) = Some []"
    by (simp add: parents_def)
  then show ?thesis
    by (simp add: json_path_def Let_def broken_json_path_def)
qed

theorem root_path_is_sentinel_witness:
  "is_root [JDict True [(''a'', JRef 1)], JList []] 0
   \<and> fst (parents [JDict True [(''a'', JRef 1)], JList []] Map.empty 0) = Some []
   \<and> fst (json_path [JDict True [(''a'', JRef 1)], JList []] Map.empty 0)
       = Inr ''<broken_json_path>''"
proof -
  have r: "is_root [JDict True [(''a'', JRef 1)], JList []] 0"
    by (simp add: is_root_def cell_def)
  show ?thesis
    using r root_path_is_sentinel [OF r, of Map.empty] by simp
qed

section \<open>Filtered deletion: properties\<close>

lemma rejected_Cons:
  "rejected (b # bs) = (if b then [] else [0]) @ map Suc (rejected bs)"
proof -
  have "filter (\<lambda>i. \<not> (b # bs) ! i) [0..<Suc (length bs)]
          = (if b then [] else [0]) @ map Suc (filter (\<lambda>i. \<not> bs ! i) [0..<length bs])"
    by (simp add: upt_conv_Cons del: upt_Suc)
       (simp add: map_Suc_upt [symmetric] filter_map comp_def del: upt_Suc)
  then show ?thesis by (simp add: rejected_def)
qed

lemma rejected_snoc:
  "rejected (bs @ [b]) = rejected bs @ (if b then [] else [length bs])"
proof -
  have "filter (\<lambda>i. \<not> (bs @ [b]) ! i) [0..<length bs] = filter (\<lambda>i. \<not> bs ! i) [0..<length bs]"
    by (rule filter_cong) (auto simp: nth_append)
  then show ?thesis by (simp add: rejected_def)
qed

lemma kept_Cons: "kept (x # xs) (b # bs) = (if b then [x] else []) @ kept xs bs"
  by (simp add: kept_def)

lemma verdicts_Cons:
  assumes "verdicts h p valid_uids (x # xs) = Inr bs"
  obtains b bs' where "p valid_uids x = Inr b"
    and "verdicts h p (if b then add_uid h valid_uids x else valid_uids) xs = Inr bs'"
    and "bs = b # bs'"
  using assms by (auto split: sum.splits)

lemma length_verdicts: "verdicts h p valid_uids xs = Inr bs \<Longrightarrow> length bs = length xs"
proof (induction xs arbitrary: valid_uids bs)
  case Nil
  then show ?case by simp
next
  case (Cons x xs)
  from Cons.prems obtain b bs' where
    v: "verdicts h p (if b then add_uid h valid_uids x else valid_uids) xs = Inr bs'" "bs = b # bs'"
    by (rule verdicts_Cons)
  from Cons.IH [OF v(1)] v(2) show ?case by simp
qed

lemma filter_scan_result:
  assumes "verdicts h p valid_uids elems = Inr bs"
    and "valid_uids \<noteq> None \<Longrightarrow> \<forall>x \<in> set (kept elems bs). uid_key h x \<noteq> None"
  shows "filter_scan h p valid_uids elems start to_delete =
           Inr (to_delete @ map (\<lambda>i. start + i) (rejected bs),
                map_option (\<lambda>uids. uids \<union> {k. \<exists>x \<in> set (kept elems bs). uid_key h x = Some k})
                  valid_uids)"
  using assms
proof (induction elems arbitrary: valid_uids start to_delete bs)
  case Nil
  then show ?case by (cases valid_uids) (auto simp: rejected_def kept_def)
next
  case (Cons x xs)
  from Cons.prems(1) obtain b bs' where
    px: "p valid_uids x = Inr b"
    and v: "verdicts h p (if b then add_uid h valid_uids x else valid_uids) xs = Inr bs'"
    and bs: "bs = b # bs'"
    by (rule verdicts_Cons)
  show ?case
  proof (cases b)
    case False
    have k: "kept (x # xs) bs = kept xs bs'"
      using False bs by (simp add: kept_Cons)
    have r: "rejected bs = 0 # map Suc (rejected bs')"
      using False bs by (simp add: rejected_Cons)
    have v': "verdicts h p valid_uids xs = Inr bs'"
      using v False by simp
    have pre: "valid_uids \<noteq> None \<Longrightarrow> \<forall>x \<in> set (kept xs bs'). uid_key h x \<noteq> None"
      using Cons.prems(2) unfolding k .
    have "filter_scan h p valid_uids (x # xs) start to_delete
            = filter_scan h p valid_uids xs (Suc start) (to_delete @ [start])"
      using False px by simp
    also have "\<dots> = Inr ((to_delete @ [start]) @ map (\<lambda>i. Suc start + i) (rejected bs'),
                map_option
                  (\<lambda>uids. uids \<union> {k. \<exists>x \<in> set (kept xs bs'). uid_key h x = Some k})
                  valid_uids)"
      using v' pre by (rule Cons.IH)
    finally have fs: "filter_scan h p valid_uids (x # xs) start to_delete = \<dots>" .
    show ?thesis
      unfolding fs k r by (simp add: comp_def)
  next
    case True
    show ?thesis
    proof (cases valid_uids)
      case None
      have k: "kept (x # xs) bs = x # kept xs bs'"
        using True bs by (simp add: kept_Cons)
      have r: "rejected bs = map Suc (rejected bs')"
        using True bs by (simp add: rejected_Cons)
      have v': "verdicts h p None xs = Inr bs'"
        using v True None by (simp add: add_uid_def)
      have "filter_scan h p valid_uids (x # xs) start to_delete
              = filter_scan h p None xs (Suc start) to_delete"
        using True None px by simp
      also have "\<dots> = Inr (to_delete @ map (\<lambda>i. Suc start + i) (rejected bs'),
                  map_option
                    (\<lambda>uids. uids \<union> {k. \<exists>x \<in> set (kept xs bs'). uid_key h x = Some k})
                    None)"
        using Cons.IH [OF v', of "Suc start" to_delete] by simp
      finally have fs: "filter_scan h p valid_uids (x # xs) start to_delete = \<dots>" .
      show ?thesis
        unfolding fs k r using None by (simp add: comp_def)
    next
      case (Some uids)
      have k: "kept (x # xs) bs = x # kept xs bs'"
        using True bs by (simp add: kept_Cons)
      have r: "rejected bs = map Suc (rejected bs')"
        using True bs by (simp add: rejected_Cons)
      from Cons.prems(2) Some obtain u where uk: "uid_key h x = Some u"
        unfolding k by auto
      then obtain uid where uid: "getitem h x (Key ''uid'') = Inr uid" "hash_key uid = Inr u"
        by (auto simp: uid_key_def split: sum.splits)
      have v': "verdicts h p (Some (insert u uids)) xs = Inr bs'"
        using v True Some uk by (simp add: add_uid_def)
      have pre: "\<forall>x \<in> set (kept xs bs'). uid_key h x \<noteq> None"
        using Cons.prems(2) Some unfolding k by simp
      have "filter_scan h p valid_uids (x # xs) start to_delete
              = filter_scan h p (Some (insert u uids)) xs (Suc start) to_delete"
        using True Some uid px by simp
      also have "\<dots> = Inr (to_delete @ map (\<lambda>i. Suc start + i) (rejected bs'),
                  map_option
                    (\<lambda>uids. uids \<union> {k. \<exists>x \<in> set (kept xs bs'). uid_key h x = Some k})
                    (Some (insert u uids)))"
        using Cons.IH [OF v', of "Suc start" to_delete] pre by simp
      finally have fs: "filter_scan h p valid_uids (x # xs) start to_delete = \<dots>" .
      show ?thesis
        unfolding fs k r using Some uk by (auto simp: comp_def)
    qed
  qed
qed

lemma del_item_append:
  "i < length xs \<Longrightarrow> del_item (xs @ ys) i = Inr (take i xs @ drop (Suc i) xs @ ys)"
  by (simp add: del_item_def)

lemma del_items_append:
  assumes "del_items xs is = Inr zs"
  shows "del_items (xs @ ys) is = Inr (zs @ ys)"
  using assms
proof (induction "is" arbitrary: xs)
  case Nil
  then show ?case by simp
next
  case (Cons i "is")
  from Cons.prems have i: "i < length xs"
    by (auto simp: del_item_def split: if_splits)
  with Cons.prems have "del_items (take i xs @ drop (Suc i) xs) is = Inr zs"
    by (simp add: del_item_def)
  from Cons.IH [OF this] show ?case
    using i by (simp add: del_item_append)
qed

lemma del_items_rejected_zip:
  "del_items (map fst zs) (rev (rejected (map snd zs))) = Inr (map fst (filter snd zs))"
proof (induction zs rule: rev_induct)
  case Nil
  show ?case by (simp add: rejected_def)
next
  case (snoc z zs)
  show ?case
  proof (cases "snd z")
    case True
    then show ?thesis
      using del_items_append [OF snoc.IH, of "[fst z]"] by (simp add: rejected_snoc)
  next
    case False
    then show ?thesis
      using snoc.IH by (simp add: rejected_snoc del_item_def)
  qed
qed

lemma del_items_rejected:
  assumes "length bs = length xs"
  shows "del_items xs (rev (rejected bs)) = Inr (kept xs bs)"
  using del_items_rejected_zip [of "zip xs bs"] assms by (simp add: kept_def)

lemma rejected_count_zip:
  "length (rejected (map snd zs)) + length (filter snd zs) = length zs"
proof (induction zs rule: rev_induct)
  case Nil
  show ?case by (simp add: rejected_def)
next
  case (snoc z zs)
  then show ?case by (simp add: rejected_snoc)
qed

lemma rejected_count:
  assumes "length bs = length xs"
  shows "length (rejected bs) + length (kept xs bs) = length xs"
  using rejected_count_zip [of "zip xs bs"] assms by (simp add: kept_def)

lemma verdicts_pure: "verdicts h (\<lambda>S x. Inr (q x)) valid_uids xs = Inr (map q xs)"
  by (induction xs arbitrary: valid_uids) simp_all

lemma kept_map: "kept xs (map q xs) = filter q xs"
proof (induction xs)
  case Nil
  show ?case by (simp add: kept_def)
next
  case (Cons x xs)
  then show ?case by (simp add: kept_Cons)
qed

lemma rejected_map: "rejected (map q xs) = filter (\<lambda>i. \<not> q (xs ! i)) [0..<length xs]"
  unfolding rejected_def by (rule filter_cong) simp_all

lemma filter_out_kept:
  assumes "cell h item_list = Some (JList elems)"
    and "verdicts h p valid_uids elems = Inr bs"
    and "valid_uids \<noteq> None \<Longrightarrow> \<forall>item \<in> set (kept elems bs). uid_key h item \<noteq> None"
  shows "filter_out h item_list p valid_uids =
           Inr (h[item_list := JList (kept elems bs)], rejected bs,
                map_option
                  (\<lambda>uids. uids \<union> {k. \<exists>item \<in> set (kept elems bs). uid_key h item = Some k})
                  valid_uids)"
proof -
  have scan: "filter_scan h p valid_uids elems 0 [] =
           Inr (rejected bs,
                map_option
                  (\<lambda>uids. uids \<union> {k. \<exists>item \<in> set (kept elems bs). uid_key h item = Some k})
                  valid_uids)"
    using filter_scan_result [OF assms(2,3), of 0 "[]"] by simp
  have del: "del_items elems (rev (rejected bs)) = Inr (kept elems bs)"
    using length_verdicts [OF assms(2)] by (rule del_items_rejected)
  show ?thesis
    by (simp add: filter_out_def assms(1) scan del)
qed

text \<open>
  The claim as it was first stated, for a predicate whose answer does not depend on the set
  and that does not raise: the list keeps the elements satisfying it.
\<close>

lemma filter_out_pure:
  assumes "cell h item_list = Some (JList elems)"
    and "valid_uids \<noteq> None \<Longrightarrow> \<forall>item \<in> set (filter q elems). uid_key h item \<noteq> None"
  shows "filter_out h item_list (\<lambda>S x. Inr (q x)) valid_uids =
           Inr (h[item_list := JList (filter q elems)],
                filter (\<lambda>i. \<not> q (elems ! i)) [0..<length elems],
                map_option
                  (\<lambda>uids. uids \<union> {k. \<exists>item \<in> set (filter q elems). uid_key h item = Some k})
                  valid_uids)"
  using filter_out_kept [OF assms(1) verdicts_pure [of h q valid_uids elems]] assms(2)
  by (simp add: kept_map rejected_map)

lemma filter_out_spec_example:
  "filter_out ex_items 0 (keep ex_items) (Some {}) =
     Inr (ex_items[0 := JList [JRef 1, JRef 3]], [1], Some {JInt 1, JInt 3})"
proof -
  have c: "cell ex_items 0 = Some (JList [JRef 1, JRef 2, JRef 3])"
    by (simp add: ex_items_def cell_def)
  have v: "verdicts ex_items (keep ex_items) (Some {}) [JRef 1, JRef 2, JRef 3]
             = Inr [True, False, True]"
    by (simp add: ex_items_def keep_def cell_def add_uid_def uid_key_def)
  have k: "kept [JRef 1, JRef 2, JRef (3::nat)] [True, False, True] = [JRef 1, JRef 3]"
    by (simp add: kept_def)
  have r: "rejected [True, False, True] = [1]"
    by (simp add: rejected_def upt_rec)
  have u: "Some {} \<noteq> (None :: jval set option) \<Longrightarrow>
            \<forall>item \<in> set (kept [JRef 1, JRef 2, JRef 3] [True, False, True]).
              uid_key ex_items item \<noteq> None"
    unfolding k by (simp add: ex_items_def uid_key_def cell_def)
  have s: "{k. \<exists>item \<in> set [JRef 1, JRef 3]. uid_key ex_items item = Some k} = {JInt 1, JInt 3}"
    by (auto simp: ex_items_def uid_key_def cell_def)
  show ?thesis
    using filter_out_kept [OF c v u] unfolding k r s by simp
qed

text \<open>
  Claim C6, amended. \<^verbatim>\<open>filter_out(L, p, S)\<close> on a list \<open>L\<close>, when no call of \<open>p\<close> raises:
  afterwards the list object holds exactly the elements that \<open>p\<close> accepted when it was
  asked, in their original order (and no other object of the store has changed); the value
  returned is the list of the positions of the elements \<open>p\<close> rejected, ascending and without
  repetition, so its length is the number of deletions; and a set \<open>S\<close>, when supplied, has
  gained the uid of every surviving element. Each element is asked once, in list order,
  with \<open>S\<close> holding the uids of the survivors before it, so a predicate that reads \<open>S\<close> may
  answer otherwise than it would have at the call or would afterwards. With a set supplied,
  every surviving element has to carry a hashable uid, or \<^verbatim>\<open>item['uid']\<close> raises. For a
  predicate \<open>q\<close> that does not read the set, the elements accepted are the elements
  satisfying \<open>q\<close>, as the claim was first stated.
\<close>

theorem filter_out_result:
  assumes "cell h item_list = Some (JList elems)"
    and "verdicts h p valid_uids elems = Inr bs"
    and "valid_uids \<noteq> None \<Longrightarrow> \<forall>item \<in> set (kept elems bs). uid_key h item \<noteq> None"
  shows "filter_out h item_list p valid_uids =
           Inr (h[item_list := JList (kept elems bs)], rejected bs,
                map_option
                  (\<lambda>uids. uids \<union> {k. \<exists>item \<in> set (kept elems bs). uid_key h item = Some k})
                  valid_uids)
         \<and> sorted (rejected bs) \<and> distinct (rejected bs)
         \<and> length (rejected bs) = length elems - length (kept elems bs)
         \<and> verdicts h (\<lambda>S x. Inr (q x)) valid_uids elems = Inr (map q elems)
         \<and> kept elems (map q elems) = filter q elems
         \<and> rejected (map q elems) = filter (\<lambda>i. \<not> q (elems ! i)) [0..<length elems]"
proof -
  have "sorted (rejected bs)"
    unfolding rejected_def by (rule sorted_wrt_filter) simp
  moreover have "distinct (rejected bs)"
    by (simp add: rejected_def)
  moreover have "length (rejected bs) = length elems - length (kept elems bs)"
    using rejected_count [OF length_verdicts [OF assms(2)]] by arith
  ultimately show ?thesis
    using filter_out_kept [OF assms] by (simp add: verdicts_pure kept_map rejected_map)
qed

theorem filter_out_result_witness:
  "filter_out ex_sector 4 (in_sector ex_sector) (Some {JStr ''a''}) =
     Inr (ex_sector[4 := JList [JRef 2, JRef 1]], [0], Some {JStr ''a'', JStr ''b''})"
proof -
  have c: "cell ex_sector 4 = Some (JList [JRef 3, JRef 2, JRef 1])"
    by (simp add: ex_sector_def cell_def)
  have v: "verdicts ex_sector (in_sector ex_sector) (Some {JStr ''a''}) [JRef 3, JRef 2, JRef 1]
             = Inr [False, True, True]"
    by (simp add: ex_sector_def in_sector_def in_uids_def py_or_def dict_get_def cell_def
          add_uid_def uid_key_def)
  have k: "kept [JRef 3, JRef 2, JRef (1::nat)] [False, True, True] = [JRef 2, JRef 1]"
    by (simp add: kept_def)
  have r: "rejected [False, True, True] = [0]"
    by (simp add: rejected_def upt_rec)
  have u: "Some {JStr ''a''} \<noteq> (None :: jval set option) \<Longrightarrow>
            \<forall>item \<in> set (kept [JRef 3, JRef 2, JRef 1] [False, True, True]).
              uid_key ex_sector item \<noteq> None"
    unfolding k by (simp add: ex_sector_def uid_key_def cell_def)
  have s: "{JStr ''a''} \<union> {k. \<exists>item \<in> set [JRef 2, JRef 1]. uid_key ex_sector item = Some k}
             = {JStr ''a'', JStr ''b''}"
    by (auto simp: ex_sector_def uid_key_def cell_def)
  have "filter_out ex_sector 4 (in_sector ex_sector) (Some {JStr ''a''}) =
          Inr (ex_sector[4 := JList (kept [JRef 3, JRef 2, JRef 1] [False, True, True])],
               rejected [False, True, True],
               map_option
                 (\<lambda>uids. uids \<union> {k. \<exists>item \<in> set (kept [JRef 3, JRef 2, JRef 1] [False, True, True]).
                                     uid_key ex_sector item = Some k})
                 (Some {JStr ''a''}))"
    using filter_out_result [OF c v u] by (rule conjunct1)
  then show ?thesis
    unfolding k r by (simp only: option.map s)
qed

text \<open>
  The claim as first stated fails for the predicate the program itself passes. On the nodes
  \<open>a\<close>, \<open>b\<close> (child of \<open>a\<close>), \<open>c\<close> (child of \<open>b\<close>) with \<open>S = {a}\<close>: asked at the call, the
  predicate is satisfied by \<open>a\<close> and \<open>b\<close> only, yet on the list in this order nothing is
  removed, because \<open>b\<close> has entered the set when \<open>c\<close> is asked. On the list in the opposite
  order \<open>c\<close> is removed, although it satisfies the predicate for the set as the call leaves
  it.
\<close>

theorem filter_out_counterexample:
  "filter_out ex_sector 0 (in_sector ex_sector) (Some {JStr ''a''}) =
     Inr (ex_sector[0 := JList [JRef 1, JRef 2, JRef 3]], [],
          Some {JStr ''a'', JStr ''b'', JStr ''c''})
   \<and> map (in_sector ex_sector (Some {JStr ''a''})) [JRef 1, JRef 2, JRef 3]
       = [Inr True, Inr True, Inr False]
   \<and> filter_out ex_sector 4 (in_sector ex_sector) (Some {JStr ''a''}) =
       Inr (ex_sector[4 := JList [JRef 2, JRef 1]], [0], Some {JStr ''a'', JStr ''b''})
   \<and> in_sector ex_sector (Some {JStr ''a'', JStr ''b''}) (JRef 3) = Inr True"
proof -
  have c0: "cell ex_sector 0 = Some (JList [JRef 1, JRef 2, JRef 3])"
    by (simp add: ex_sector_def cell_def)
  have c4: "cell ex_sector 4 = Some (JList [JRef 3, JRef 2, JRef 1])"
    by (simp add: ex_sector_def cell_def)
  have 1: "filter_out ex_sector 0 (in_sector ex_sector) (Some {JStr ''a''}) =
     Inr (ex_sector[0 := JList [JRef 1, JRef 2, JRef 3]], [],
          Some {JStr ''a'', JStr ''b'', JStr ''c''})"
    unfolding filter_out_def c0
    by (simp add: ex_sector_def in_sector_def in_uids_def py_or_def dict_get_def cell_def)
       auto
  have 2: "map (in_sector ex_sector (Some {JStr ''a''})) [JRef 1, JRef 2, JRef 3]
       = [Inr True, Inr True, Inr False]"
    by (simp add: ex_sector_def in_sector_def in_uids_def py_or_def dict_get_def cell_def)
  have 3: "filter_out ex_sector 4 (in_sector ex_sector) (Some {JStr ''a''}) =
       Inr (ex_sector[4 := JList [JRef 2, JRef 1]], [0], Some {JStr ''a'', JStr ''b''})"
    unfolding filter_out_def c4
    by (simp add: ex_sector_def in_sector_def in_uids_def py_or_def dict_get_def cell_def
          del_item_def)
       auto
  have 4: "in_sector ex_sector (Some {JStr ''a'', JStr ''b''}) (JRef 3) = Inr True"
    by (simp add: ex_sector_def in_sector_def in_uids_def py_or_def dict_get_def cell_def)
  from 1 2 3 4 show ?thesis by (intro conjI)
qed


section \<open>Catalog: properties\<close>

lemma bucket_of_upd:
  "bucket_of (ix(a \<mapsto> idx)) a' k' =
     (if a' = a then (case idx k' of None \<Rightarrow> {} | Some s \<Rightarrow> s) else bucket_of ix a' k')"
  by (simp add: bucket_of_def)

lemma unindex_attrs_ok:
  assumes "distinct (map fst r)" and "\<forall>(a, k) \<in> set r. oid \<in> bucket_of ix a k"
  shows "\<exists>ix'. unindex_attrs ix oid r = Inr ix' \<and> dom ix' = dom ix
           \<and> (\<forall>a k. bucket_of ix' a k
                 = (if (a, k) \<in> set r then bucket_of ix a k - {oid} else bucket_of ix a k))"
  using assms
proof (induction r arbitrary: ix)
  case Nil
  then show ?case by simp
next
  case (Cons p rest)
  obtain a v where p: "p = (a, v)" by (cases p)
  from Cons.prems(2) p have "oid \<in> bucket_of ix a v" by simp
  then obtain idx s where ix: "ix a = Some idx" "idx v = Some s" "oid \<in> s"
    by (auto simp: bucket_of_def split: option.splits)
  define idx' where "idx' = (if s - {oid} = {} then idx(v := None) else idx(v \<mapsto> s - {oid}))"
  define ix1 where "ix1 = ix(a \<mapsto> idx')"
  have b1: "bucket_of ix1 a' k' = (if a' = a \<and> k' = v then s - {oid} else bucket_of ix a' k')"
    for a' k'
    using ix by (auto simp: ix1_def idx'_def bucket_of_def split: option.splits)
  have fresh: "a \<notin> fst ` set rest" and d: "distinct (map fst rest)"
    using Cons.prems(1) p by auto
  have "\<forall>(a', k') \<in> set rest. oid \<in> bucket_of ix1 a' k'"
    using Cons.prems(2) fresh by (auto simp: b1 rev_image_eqI)
  from Cons.IH [OF d this] obtain ix' where
    ix': "unindex_attrs ix1 oid rest = Inr ix'" "dom ix' = dom ix1"
      "\<forall>a k. bucket_of ix' a k
                 = (if (a, k) \<in> set rest then bucket_of ix1 a k - {oid} else bucket_of ix1 a k)"
    by blast
  have "unindex_attrs ix oid (p # rest) = Inr ix'"
    using ix ix'(1) by (simp add: p ix1_def idx'_def Let_def)
  moreover have "dom ix' = dom ix"
    using ix'(2) ix(1) by (auto simp: ix1_def)
  moreover have "bucket_of ix' a' k'
                 = (if (a', k') \<in> set (p # rest) then bucket_of ix a' k' - {oid} else bucket_of ix a' k')"
    for a' k'
  proof -
    have s: "bucket_of ix a v = s" using ix by (simp add: bucket_of_def)
    have nr: "(a, k') \<notin> set rest" for k' using fresh by (auto simp: rev_image_eqI)
    show ?thesis
    proof (cases "a' = a")
      case True
      then show ?thesis using ix'(3) nr s by (simp add: b1 p)
    next
      case False
      then show ?thesis using ix'(3) by (simp add: b1 p)
    qed
  qed
  ultimately show ?case by blast
qed


lemma index_attrs_Cons_cases:
  assumes "index_attrs h item (a # as) (ix, r) = Inr res"
  obtains (absent) "attr_key h item a = None" "index_attrs h item as (ix, r) = Inr res"
  | (present) k idx where "attr_key h item a = Some k" "ix a = Some idx"
      "index_attrs h item as
         (ix(a \<mapsto> idx(k \<mapsto> insert item (case idx k of None \<Rightarrow> {} | Some s \<Rightarrow> s))),
          AList.update a k r) = Inr res"
  using assms
  by (auto simp: attr_key_def Let_def split: option.splits jcont.splits sum.splits)

lemma index_attrs_dom:
  "index_attrs h item as (ix, r) = Inr (ix', r') \<Longrightarrow> dom ix' = dom ix"
proof (induction as arbitrary: ix r)
  case Nil
  then show ?case by simp
next
  case (Cons a as)
  from Cons.prems show ?case
  proof (cases rule: index_attrs_Cons_cases)
    case absent
    then show ?thesis using Cons.IH by blast
  next
    case (present k idx)
    have "dom (ix(a \<mapsto> idx(k \<mapsto> insert item (case idx k of None \<Rightarrow> {} | Some s \<Rightarrow> s))))
            = dom ix"
      using present(2) by (simp add: insert_absorb domI)
    moreover have "dom ix' = dom (ix(a \<mapsto> idx(k \<mapsto> insert item (case idx k of None \<Rightarrow> {} | Some s \<Rightarrow> s))))"
      using present(3) by (rule Cons.IH)
    ultimately show ?thesis by (simp only:)
  qed
qed

lemma index_attrs_recorded:
  "index_attrs h item as (ix, r) = Inr (ix', r') \<Longrightarrow> distinct as \<Longrightarrow>
     map_of r' a = (if a \<in> set as \<and> attr_key h item a \<noteq> None
                    then attr_key h item a else map_of r a)"
proof (induction as arbitrary: ix r)
  case Nil
  then show ?case by simp
next
  case (Cons b as)
  from Cons.prems(2) have nb: "b \<notin> set as" and d: "distinct as" by simp_all
  from Cons.prems(1) show ?case
  proof (cases rule: index_attrs_Cons_cases)
    case absent
    from Cons.IH [OF absent(2) d] absent(1) show ?thesis by auto
  next
    case (present k idx)
    from Cons.IH [OF present(3) d] present(1) nb show ?thesis
      by (auto simp: update_conv')
  qed
qed

lemma index_attrs_bucket:
  "index_attrs h item as (ix, r) = Inr (ix', r') \<Longrightarrow> distinct as \<Longrightarrow>
     bucket_of ix' a k = (if a \<in> set as \<and> attr_key h item a = Some k
                          then insert item (bucket_of ix a k) else bucket_of ix a k)"
proof (induction as arbitrary: ix r)
  case Nil
  then show ?case by simp
next
  case (Cons b as)
  from Cons.prems(2) have nb: "b \<notin> set as" and d: "distinct as" by simp_all
  from Cons.prems(1) show ?case
  proof (cases rule: index_attrs_Cons_cases)
    case absent
    from Cons.IH [OF absent(2) d] absent(1) show ?thesis by auto
  next
    case (present k' idx)
    have b1: "bucket_of (ix(b \<mapsto> idx(k' \<mapsto> insert item (case idx k' of None \<Rightarrow> {} | Some s \<Rightarrow> s)))) a k
                = (if a = b \<and> k = k' then insert item (bucket_of ix a k) else bucket_of ix a k)"
      for a k
      using present(2) by (simp add: bucket_of_def split: option.splits)
    from Cons.IH [OF present(3) d] present(1) nb show ?thesis
      by (auto simp: b1)
  qed
qed

lemma index_attrs_distinct:
  "index_attrs h item as (ix, r) = Inr (ix', r') \<Longrightarrow> distinct (map fst r)
     \<Longrightarrow> distinct (map fst r')"
proof (induction as arbitrary: ix r)
  case Nil
  then show ?case by simp
next
  case (Cons b as)
  from Cons.prems(1) show ?case
  proof (cases rule: index_attrs_Cons_cases)
    case absent
    from Cons.IH [OF absent(2) Cons.prems(2)] show ?thesis .
  next
    case (present k idx)
    have "distinct (map fst (AList.update b k r))"
      using Cons.prems(2) by (simp add: distinct_update)
    from Cons.IH [OF present(3) this] show ?thesis .
  qed
qed

lemma index_attrs_keys:
  "index_attrs h item as (ix, r) = Inr (ix', r') \<Longrightarrow> fst ` set r' \<subseteq> fst ` set r \<union> set as"
proof (induction as arbitrary: ix r)
  case Nil
  then show ?case by simp
next
  case (Cons b as)
  from Cons.prems(1) show ?case
  proof (cases rule: index_attrs_Cons_cases)
    case absent
    from Cons.IH [OF absent(2)] show ?thesis by auto
  next
    case (present k idx)
    have "fst ` set (AList.update b k r) \<subseteq> insert b (fst ` set r)"
      by (simp add: dom_update)
    with Cons.IH [OF present(3)] show ?thesis by auto
  qed
qed


lemma cat_inv_new: "cat_inv (new_catalog as)"
proof -
  have "dom (\<lambda>attr. if attr \<in> set as then Some (Map.empty :: jval \<Rightarrow> addr set option) else None)
          = set as"
    by (auto split: if_splits)
  then show ?thesis
    by (simp add: cat_inv_def new_catalog_def bucket_of_def)
qed

lemma cat_invD:
  assumes "cat_inv cat"
  shows "finite (items cat)" and "distinct (attrs cat)" and "dom (indexes cat) = set (attrs cat)"
    and "dom (values' cat) = items cat"
    and "\<And>i r. values' cat i = Some r \<Longrightarrow> fst ` set r \<subseteq> set (attrs cat)"
    and "\<And>i r. values' cat i = Some r \<Longrightarrow> distinct (map fst r)"
    and "\<And>attr k. attr \<in> set (attrs cat) \<Longrightarrow>
           bucket_of (indexes cat) attr k
             = {i. \<exists>r. values' cat i = Some r \<and> map_of r attr = Some k}"
proof -
  note a = assms [unfolded cat_inv_def]
  show "finite (items cat)" using a by (elim conjE)
  show "distinct (attrs cat)" using a by (elim conjE)
  show "dom (indexes cat) = set (attrs cat)" using a by (elim conjE)
  show "dom (values' cat) = items cat" using a by (elim conjE)
  have b: "\<forall>i r. values' cat i = Some r \<longrightarrow>
           fst ` set r \<subseteq> set (attrs cat) \<and> distinct (map fst r)" using a by (elim conjE)
  show "\<And>i r. values' cat i = Some r \<Longrightarrow> fst ` set r \<subseteq> set (attrs cat)"
    using b by (elim allE impE conjE) assumption+
  show "\<And>i r. values' cat i = Some r \<Longrightarrow> distinct (map fst r)"
    using b by (elim allE impE conjE) assumption+
  have c: "\<forall>attr k. attr \<in> set (attrs cat) \<longrightarrow>
           bucket_of (indexes cat) attr k
             = {i. \<exists>r. values' cat i = Some r \<and> map_of r attr = Some k}" using a by (elim conjE)
  show "\<And>attr k. attr \<in> set (attrs cat) \<Longrightarrow>
           bucket_of (indexes cat) attr k
             = {i. \<exists>r. values' cat i = Some r \<and> map_of r attr = Some k}"
    using c by (elim allE impE) assumption+
qed

lemma unindex_inv:
  assumes inv: "cat_inv cat"
  shows "\<exists>cat'. unindex cat item = Inr cat' \<and> cat_inv cat' \<and> attrs cat' = attrs cat
           \<and> values' cat' = (values' cat)(item := None)"
proof (cases "item \<in> items cat")
  case False
  then have "values' cat item = None"
    using cat_invD(4) [OF inv] by blast
  then have "(values' cat)(item := None) = values' cat"
    by (simp add: fun_upd_idem)
  then show ?thesis
    using False inv by (simp add: unindex_def)
next
  case True
  then obtain r where r: "values' cat item = Some r"
    using cat_invD(4) [OF inv] by blast
  have dr: "distinct (map fst r)" and kr: "fst ` set r \<subseteq> set (attrs cat)"
    using cat_invD(5,6) [OF inv r] by simp_all
  have mem: "(a, k) \<in> set r \<longleftrightarrow> map_of r a = Some k" for a k
    using dr by simp
  have "\<forall>(a, k) \<in> set r. item \<in> bucket_of (indexes cat) a k"
  proof (clarify)
    fix a k assume ak: "(a, k) \<in> set r"
    then have "a \<in> set (attrs cat)" using kr by force
    then have "bucket_of (indexes cat) a k
                 = {i. \<exists>r. values' cat i = Some r \<and> map_of r a = Some k}"
      by (rule cat_invD(7) [OF inv])
    then show "item \<in> bucket_of (indexes cat) a k"
      using r ak mem by simp
  qed
  from unindex_attrs_ok [OF dr this] obtain ix' where
    ix': "unindex_attrs (indexes cat) item r = Inr ix'" "dom ix' = dom (indexes cat)"
      "\<forall>a k. bucket_of ix' a k
                 = (if (a, k) \<in> set r then bucket_of (indexes cat) a k - {item}
                    else bucket_of (indexes cat) a k)"
    by blast
  define cat' where "cat' = cat\<lparr>items := items cat - {item}, indexes := ix',
                              values' := (values' cat)(item := None)\<rparr>"
  have res: "unindex cat item = Inr cat'"
    using True r ix'(1) by (simp add: unindex_def cat'_def)
  have b: "bucket_of (indexes cat') attr k
             = {i. \<exists>r. values' cat' i = Some r \<and> map_of r attr = Some k}"
    if at: "attr \<in> set (attrs cat')" for attr k
  proof -
    have at': "attr \<in> set (attrs cat)" using at by (simp add: cat'_def)
    have old: "bucket_of (indexes cat) attr k
                 = {i. \<exists>r. values' cat i = Some r \<and> map_of r attr = Some k}"
      by (rule cat_invD(7) [OF inv at'])
    have new: "{i. \<exists>r. values' cat' i = Some r \<and> map_of r attr = Some k}
                 = {i. \<exists>r. values' cat i = Some r \<and> map_of r attr = Some k} - {item}"
      by (auto simp: cat'_def)
    show ?thesis
    proof (cases "(attr, k) \<in> set r")
      case True
      then show ?thesis using ix'(3) old new by (simp add: cat'_def)
    next
      case False
      then have "item \<notin> {i. \<exists>r. values' cat i = Some r \<and> map_of r attr = Some k}"
        using r mem by simp
      then show ?thesis using False ix'(3) old new by (simp add: cat'_def)
    qed
  qed
  have "cat_inv cat'"
    unfolding cat_inv_def
  proof (intro conjI allI impI)
    show "finite (items cat')" using cat_invD(1) [OF inv] by (simp add: cat'_def)
    show "distinct (attrs cat')" using cat_invD(2) [OF inv] by (simp add: cat'_def)
    show "dom (indexes cat') = set (attrs cat')"
      using cat_invD(3) [OF inv] ix'(2) by (simp add: cat'_def)
    show "dom (values' cat') = items cat'"
      using cat_invD(4) [OF inv] by (auto simp: cat'_def)
  next
    fix i r' assume "values' cat' i = Some r'"
    then have v: "values' cat i = Some r'" by (simp add: cat'_def split: if_splits)
    show "fst ` set r' \<subseteq> set (attrs cat')"
      using cat_invD(5) [OF inv v] by (simp add: cat'_def)
    show "distinct (map fst r')"
      using cat_invD(6) [OF inv v] .
  next
    fix attr k assume "attr \<in> set (attrs cat')"
    then show "bucket_of (indexes cat') attr k
             = {i. \<exists>r. values' cat' i = Some r \<and> map_of r attr = Some k}"
      by (rule b)
  qed
  moreover have "attrs cat' = attrs cat" by (simp add: cat'_def)
  moreover have "values' cat' = (values' cat)(item := None)" by (simp add: cat'_def)
  ultimately show ?thesis using res by blast
qed


lemma pre_index:
  assumes inv: "cat_inv cat"
  shows "\<exists>cat1. (if item \<in> items cat then unindex cat item else Inr cat) = Inr cat1
           \<and> cat_inv cat1 \<and> attrs cat1 = attrs cat
           \<and> values' cat1 = (values' cat)(item := None)"
proof (cases "item \<in> items cat")
  case True
  then show ?thesis using unindex_inv [OF inv, of item] by simp
next
  case False
  then have "values' cat item = None"
    using cat_invD(4) [OF inv] by blast
  then have "(values' cat)(item := None) = values' cat"
    by (simp add: fun_upd_idem)
  then show ?thesis using False inv by simp
qed

lemma index_inv:
  assumes inv: "cat_inv cat" and res: "index h cat item = Inr cat'"
  shows "cat_inv cat' \<and> attrs cat' = attrs cat
         \<and> (\<exists>r. values' cat' = (values' cat)(item \<mapsto> r)
                \<and> map_of r = snapshot (attrs cat) h item)"
proof -
  from pre_index [OF inv, of item] obtain cat1 where
    c1: "(if item \<in> items cat then unindex cat item else Inr cat) = Inr cat1"
    and inv1: "cat_inv cat1" and at1: "attrs cat1 = attrs cat"
    and v1: "values' cat1 = (values' cat)(item := None)"
    by blast
  have none1: "values' cat1 item = None" by (simp add: v1)
  from res c1 obtain ix r where
    ia: "index_attrs h item (attrs cat1) (indexes cat1, []) = Inr (ix, r)"
    and cat': "cat' = cat1\<lparr>items := insert item (items cat1), indexes := ix,
                         values' := (values' cat1)(item \<mapsto> r)\<rparr>"
    by (auto simp: index_def none1 split: sum.splits)
  have d1: "distinct (attrs cat1)" by (rule cat_invD(2) [OF inv1])
  have domix: "dom ix = dom (indexes cat1)" by (rule index_attrs_dom [OF ia])
  have mr: "map_of r a = snapshot (attrs cat1) h item a" for a
    using index_attrs_recorded [OF ia d1, of a] by (auto simp: snapshot_def)
  have dr: "distinct (map fst r)" using index_attrs_distinct [OF ia] by simp
  have kr: "fst ` set r \<subseteq> set (attrs cat1)" using index_attrs_keys [OF ia] by simp
  have b: "bucket_of (indexes cat') attr k
             = {i. \<exists>r. values' cat' i = Some r \<and> map_of r attr = Some k}"
    if at: "attr \<in> set (attrs cat')" for attr k
  proof -
    have at': "attr \<in> set (attrs cat1)" using at by (simp add: cat')
    have old: "bucket_of (indexes cat1) attr k
                 = {i. \<exists>r. values' cat1 i = Some r \<and> map_of r attr = Some k}"
      by (rule cat_invD(7) [OF inv1 at'])
    have nb: "bucket_of ix attr k
                = (if attr_key h item attr = Some k
                   then insert item (bucket_of (indexes cat1) attr k)
                   else bucket_of (indexes cat1) attr k)"
      using index_attrs_bucket [OF ia d1, of attr k] at' by simp
    have mk: "map_of r attr = attr_key h item attr"
      using mr [of attr] at' by (simp add: snapshot_def)
    have new: "{i. \<exists>r'. values' cat' i = Some r' \<and> map_of r' attr = Some k}
                 = (if map_of r attr = Some k
                    then insert item {i. \<exists>r. values' cat1 i = Some r \<and> map_of r attr = Some k}
                    else {i. \<exists>r. values' cat1 i = Some r \<and> map_of r attr = Some k})"
      using none1 by (auto simp: cat')
    show ?thesis
      using nb old new mk by (simp add: cat')
  qed
  have "cat_inv cat'"
    unfolding cat_inv_def
  proof (intro conjI allI impI)
    show "finite (items cat')" using cat_invD(1) [OF inv1] by (simp add: cat')
    show "distinct (attrs cat')" using d1 by (simp add: cat')
    show "dom (indexes cat') = set (attrs cat')"
      using cat_invD(3) [OF inv1] domix by (simp add: cat')
    show "dom (values' cat') = items cat'"
      using cat_invD(4) [OF inv1] by (simp add: cat')
  next
    fix i r' assume v: "values' cat' i = Some r'"
    show "fst ` set r' \<subseteq> set (attrs cat')"
    proof (cases "i = item")
      case True
      then show ?thesis using v kr by (simp add: cat')
    next
      case False
      then have "values' cat1 i = Some r'" using v by (simp add: cat')
      from cat_invD(5) [OF inv1 this] show ?thesis by (simp add: cat')
    qed
    show "distinct (map fst r')"
    proof (cases "i = item")
      case True
      then show ?thesis using v dr by (simp add: cat')
    next
      case False
      then have "values' cat1 i = Some r'" using v by (simp add: cat')
      from cat_invD(6) [OF inv1 this] show ?thesis .
    qed
  next
    fix attr k assume "attr \<in> set (attrs cat')"
    then show "bucket_of (indexes cat') attr k
             = {i. \<exists>r. values' cat' i = Some r \<and> map_of r attr = Some k}"
      by (rule b)
  qed
  moreover have "attrs cat' = attrs cat" by (simp add: cat' at1)
  moreover have "values' cat' = (values' cat)(item \<mapsto> r)" by (simp add: cat' v1)
  moreover have "map_of r = snapshot (attrs cat) h item"
    using mr at1 by (simp add: fun_eq_iff)
  ultimately show ?thesis by blast
qed


lemma snapshot_cong: "set as = set bs \<Longrightarrow> snapshot as = snapshot bs"
  by (simp add: snapshot_def fun_eq_iff)

lemma run_ops_inv:
  assumes "cat_inv cat" and "run_ops cat ops = Inr cat'" and "set (attrs cat) = set as"
  shows "cat_inv cat' \<and> attrs cat' = attrs cat
         \<and> recorded_of cat' = registered_after as (recorded_of cat) ops"
  using assms
proof (induction ops arbitrary: cat)
  case Nil
  then show ?case by simp
next
  case (Cons op ops)
  from Cons.prems(2) obtain cat1 where
    s1: "run_op cat op = Inr cat1" and rest: "run_ops cat1 ops = Inr cat'"
    by (auto split: sum.splits)
  have step: "cat_inv cat1 \<and> attrs cat1 = attrs cat
              \<and> registered_after as (recorded_of cat) (op # ops)
                  = registered_after as (recorded_of cat1) ops"
  proof (cases op)
    case (CallIndex h item)
    with s1 have "index h cat item = Inr cat1" by simp
    from index_inv [OF Cons.prems(1) this] obtain r where
      r: "cat_inv cat1" "attrs cat1 = attrs cat" "values' cat1 = (values' cat)(item \<mapsto> r)"
         "map_of r = snapshot (attrs cat) h item"
      by blast
    have "recorded_of cat1 = (recorded_of cat)(item \<mapsto> snapshot as h item)"
      using r(3,4) snapshot_cong [OF Cons.prems(3)]
      by (simp add: recorded_of_def fun_eq_iff)
    then show ?thesis using r(1,2) CallIndex by simp
  next
    case (CallUnindex item)
    with s1 have u: "unindex cat item = Inr cat1" by simp
    from unindex_inv [OF Cons.prems(1), of item] u
    have r: "cat_inv cat1" "attrs cat1 = attrs cat" "values' cat1 = (values' cat)(item := None)"
      by auto
    have "recorded_of cat1 = (recorded_of cat)(item := None)"
      using r(3) by (simp add: recorded_of_def fun_eq_iff)
    then show ?thesis using r(1,2) CallUnindex by simp
  qed
  then have "set (attrs cat1) = set as" using Cons.prems(3) by simp
  from Cons.IH [OF _ rest this] step show ?case by simp
qed

lemma search_ids_Some:
  assumes "\<forall>c \<in> set criteria. fst c \<in> dom (indexes cat) \<and> (\<exists>k. hash_key (snd c) = Inr k)"
  shows "search_ids cat criteria (Some r) = Inr (r \<inter> (\<Inter>c \<in> set criteria. crit_bucket cat c))"
  using assms
proof (induction criteria arbitrary: r)
  case Nil
  then show ?case by simp
next
  case (Cons c cs)
  obtain a v where c: "c = (a, v)" by (cases c)
  from Cons.prems c obtain idx k where ik: "indexes cat a = Some idx" "hash_key v = Inr k"
    by auto
  have cb: "crit_bucket cat c = (case idx k of None \<Rightarrow> {} | Some s \<Rightarrow> s)"
    using ik by (simp add: crit_bucket_def bucket_of_def c)
  have rest: "\<forall>c \<in> set cs. fst c \<in> dom (indexes cat) \<and> (\<exists>k. hash_key (snd c) = Inr k)"
    using Cons.prems by simp
  show ?case
  proof (cases "r \<inter> crit_bucket cat c = {}")
    case True
    then have "r \<inter> (\<Inter>c \<in> set (c # cs). crit_bucket cat c) = {}" by auto
    moreover have "search_ids cat (c # cs) (Some r) = Inr {}"
      using True ik cb by (auto simp: c Let_def split: option.splits)
    ultimately show ?thesis by simp
  next
    case False
    then obtain s where s: "idx k = Some s" "s \<noteq> {}" "r \<inter> s \<noteq> {}"
      using cb by (auto split: option.splits)
    then have "search_ids cat (c # cs) (Some r) = search_ids cat cs (Some (r \<inter> s))"
      using ik by (simp add: c Let_def)
    also have "\<dots> = Inr ((r \<inter> s) \<inter> (\<Inter>c \<in> set cs. crit_bucket cat c))"
      by (rule Cons.IH [OF rest])
    finally show ?thesis using cb s(1) by (simp add: Int_assoc)
  qed
qed

lemma search_ids_None:
  assumes "\<forall>c \<in> set (c # cs). fst c \<in> dom (indexes cat) \<and> (\<exists>k. hash_key (snd c) = Inr k)"
  shows "search_ids cat (c # cs) None = Inr (\<Inter>c \<in> set (c # cs). crit_bucket cat c)"
proof -
  obtain a v where c: "c = (a, v)" by (cases c)
  from assms c obtain idx k where ik: "indexes cat a = Some idx" "hash_key v = Inr k"
    by auto
  have cb: "crit_bucket cat c = (case idx k of None \<Rightarrow> {} | Some s \<Rightarrow> s)"
    using ik by (simp add: crit_bucket_def bucket_of_def c)
  have rest: "\<forall>c \<in> set cs. fst c \<in> dom (indexes cat) \<and> (\<exists>k. hash_key (snd c) = Inr k)"
    using assms by simp
  show ?thesis
  proof (cases "crit_bucket cat c = {}")
    case True
    then have "(\<Inter>c \<in> set (c # cs). crit_bucket cat c) = {}" by auto
    moreover have "search_ids cat (c # cs) None = Inr {}"
      using True ik cb by (auto simp: c Let_def split: option.splits)
    ultimately show ?thesis by simp
  next
    case False
    then obtain s where s: "idx k = Some s" "s \<noteq> {}"
      using cb by (auto split: option.splits)
    then have "search_ids cat (c # cs) None = search_ids cat cs (Some s)"
      using ik by (simp add: c Let_def)
    also have "\<dots> = Inr (s \<inter> (\<Inter>c \<in> set cs. crit_bucket cat c))"
      by (rule search_ids_Some [OF rest])
    finally show ?thesis using cb s(1) by simp
  qed
qed

lemma crit_bucket_inv:
  assumes inv: "cat_inv cat" and "fst c \<in> set (attrs cat)" and "hash_key (snd c) = Inr k"
  shows "crit_bucket cat c = {i. \<exists>s. recorded_of cat i = Some s \<and> s (fst c) = Some k}"
proof -
  have "crit_bucket cat c = {i. \<exists>r. values' cat i = Some r \<and> map_of r (fst c) = Some k}"
    using cat_invD(7) [OF inv assms(2)] assms(3) by (simp add: crit_bucket_def)
  also have "\<dots> = {i. \<exists>s. recorded_of cat i = Some s \<and> s (fst c) = Some k}"
    by (auto simp: recorded_of_def)
  finally show ?thesis .
qed

lemma crit_bucket_items:
  assumes inv: "cat_inv cat" and "fst c \<in> set (attrs cat)"
  shows "crit_bucket cat c \<subseteq> items cat"
proof (cases "hash_key (snd c)")
  case (Inl e)
  then show ?thesis by (simp add: crit_bucket_def)
next
  case (Inr k)
  have "crit_bucket cat c = {i. \<exists>r. values' cat i = Some r \<and> map_of r (fst c) = Some k}"
    using cat_invD(7) [OF inv assms(2)] Inr by (simp add: crit_bucket_def)
  then show ?thesis using cat_invD(4) [OF inv] by auto
qed

lemma search_inv:
  assumes inv: "cat_inv cat" and ne: "criteria \<noteq> []"
    and ok: "\<forall>c \<in> set criteria. fst c \<in> set (attrs cat) \<and> (\<exists>k. hash_key (snd c) = Inr k)"
  shows "\<exists>found. search cat criteria = Inr found \<and> distinct found
           \<and> set found = (\<Inter>c \<in> set criteria. crit_bucket cat c)"
proof -
  obtain c cs where cr: "criteria = c # cs" using ne by (cases criteria) auto
  have ok': "\<forall>c \<in> set (c # cs). fst c \<in> dom (indexes cat) \<and> (\<exists>k. hash_key (snd c) = Inr k)"
    using ok cat_invD(3) [OF inv] by (simp add: cr)
  have ids: "search_ids cat criteria None = Inr (\<Inter>c \<in> set criteria. crit_bucket cat c)"
    unfolding cr by (rule search_ids_None [OF ok'])
  have "(\<Inter>c \<in> set criteria. crit_bucket cat c) \<subseteq> crit_bucket cat c"
    by (auto simp: cr)
  also have "\<dots> \<subseteq> items cat"
    using crit_bucket_items [OF inv, of c] ok by (simp add: cr)
  finally have sub: "(\<Inter>c \<in> set criteria. crit_bucket cat c) \<subseteq> items cat" .
  then have fin: "finite (\<Inter>c \<in> set criteria. crit_bucket cat c)"
    using cat_invD(1) [OF inv] by (rule finite_subset)
  have "search cat criteria = Inr (sorted_list_of_set (\<Inter>c \<in> set criteria. crit_bucket cat c))"
    using ids sub by (simp add: search_def)
  then show ?thesis using fin by simp
qed


text \<open>
  Claim C3. Take a catalog made for the attributes \<open>as\<close> and any history of
  \<^verbatim>\<open>index\<close>/\<^verbatim>\<open>unindex\<close> calls on it that ran without raising. A search with one
  constraint \<open>attr = v\<close> on a configured attribute returns, without repetition, exactly the
  items that are registered at that moment and whose values recorded at their last
  registration have \<open>attr\<close> equal to \<open>v\<close>; a search with several constraints returns
  exactly the intersection of the results of the single-constraint searches.
\<close>

theorem catalog_search_consistent:
  assumes run: "run_ops (new_catalog as) ops = Inr cat"
    and ne: "criteria \<noteq> []"
    and ok: "\<forall>(attr, v) \<in> set criteria. attr \<in> set as \<and> (\<exists>k. hash_key v = Inr k)"
  shows "\<exists>found. search cat criteria = Inr found \<and> distinct found
           \<and> set found = (\<Inter>(attr, v) \<in> set criteria.
                 {i. \<exists>s k. registered as ops i = Some s \<and> hash_key v = Inr k \<and> s attr = Some k})
           \<and> set found = (\<Inter>c \<in> set criteria. search_set cat [c])"
proof -
  have sa: "set (attrs (new_catalog as)) = set as" by (simp add: new_catalog_def)
  note r = run_ops_inv [OF cat_inv_new run sa]
  have inv: "cat_inv cat" using r by (elim conjE)
  have at: "attrs cat = attrs (new_catalog as)" using r by (elim conjE)
  have rec: "recorded_of cat = registered_after as (recorded_of (new_catalog as)) ops"
    using r by (elim conjE)
  have "recorded_of (new_catalog as) = Map.empty"
    by (simp add: recorded_of_def new_catalog_def fun_eq_iff)
  with rec have reg: "recorded_of cat = registered as ops" by (simp add: registered_def)
  have okc: "fst c \<in> set (attrs cat) \<and> (\<exists>k. hash_key (snd c) = Inr k)"
    if "c \<in> set criteria" for c
  proof -
    obtain a v where c: "c = (a, v)" by (cases c)
    from ok that c have "a \<in> set as \<and> (\<exists>k. hash_key v = Inr k)" by blast
    then show ?thesis by (simp add: c at sa)
  qed
  then have ok': "\<forall>c \<in> set criteria. fst c \<in> set (attrs cat) \<and> (\<exists>k. hash_key (snd c) = Inr k)"
    by blast
  have single: "search_set cat [c] = crit_bucket cat c" if "c \<in> set criteria" for c
  proof -
    have o1: "\<forall>c' \<in> set [c]. fst c' \<in> set (attrs cat) \<and> (\<exists>k. hash_key (snd c') = Inr k)"
      using okc [OF that] by simp
    have n1: "[c] \<noteq> []" by simp
    from search_inv [OF inv n1 o1] obtain found where
      "search cat [c] = Inr found" "set found = (\<Inter>c \<in> set [c]. crit_bucket cat c)"
      by blast
    then show ?thesis by (simp add: search_set_def)
  qed
  have spec: "crit_bucket cat c
      = (case c of (attr, v) \<Rightarrow>
           {i. \<exists>s k. registered as ops i = Some s \<and> hash_key v = Inr k \<and> s attr = Some k})"
    if "c \<in> set criteria" for c
  proof -
    obtain a v where c: "c = (a, v)" by (cases c)
    from okc [OF that] obtain k where k: "hash_key v = Inr k" and a: "a \<in> set (attrs cat)"
      by (auto simp: c)
    have "crit_bucket cat (a, v) = {i. \<exists>s. recorded_of cat i = Some s \<and> s (fst (a, v)) = Some k}"
      by (rule crit_bucket_inv [OF inv]) (simp_all add: a k)
    then show ?thesis using k by (simp add: c reg)
  qed
  from search_inv [OF inv ne ok'] obtain found where
    f: "search cat criteria = Inr found" "distinct found"
       "set found = (\<Inter>c \<in> set criteria. crit_bucket cat c)"
    by blast
  have "(\<Inter>c \<in> set criteria. crit_bucket cat c) = (\<Inter>c \<in> set criteria. search_set cat [c])"
    by (intro INF_cong refl) (simp add: single)
  then have one: "set found = (\<Inter>c \<in> set criteria. search_set cat [c])"
    using f(3) by simp
  have "(\<Inter>c \<in> set criteria. crit_bucket cat c) = (\<Inter>c \<in> set criteria. case c of (attr, v) \<Rightarrow>
                 {i. \<exists>s k. registered as ops i = Some s \<and> hash_key v = Inr k \<and> s attr = Some k})"
    by (intro INF_cong refl) (rule spec)
  then have two: "set found = (\<Inter>(attr, v) \<in> set criteria.
                 {i. \<exists>s k. registered as ops i = Some s \<and> hash_key v = Inr k \<and> s attr = Some k})"
    using f(3) by simp
  show ?thesis
    by (intro exI [of _ found] conjI f(1) f(2) one two)
qed

lemma hash_key_ok: "(\<exists>k. hash_key v = Inr k) \<longleftrightarrow> (case v of JRef _ \<Rightarrow> False | _ \<Rightarrow> True)"
  by (cases v) simp_all

lemma index_attrs_total:
  assumes "set as \<subseteq> dom ix" and "indexable as h item"
  shows "\<exists>res. index_attrs h item as (ix, r) = Inr res"
  using assms
proof (induction as arbitrary: ix r)
  case Nil
  show ?case by simp
next
  case (Cons a as)
  from Cons.prems(2) obtain rt kvs where c: "cell h item = Some (JDict rt kvs)"
    by (auto simp: indexable_def split: option.splits jcont.splits)
  have rest: "indexable as h item" 
    using Cons.prems(2) by (simp add: indexable_def c)
  show ?case
  proof (cases "map_of kvs a")
    case None
    have "set as \<subseteq> dom ix" using Cons.prems(1) by simp
    from Cons.IH [OF this rest, of r] show ?thesis using None c by simp
  next
    case (Some v)
    have "case v of JRef _ \<Rightarrow> False | _ \<Rightarrow> True"
      using Cons.prems(2) Some by (simp add: indexable_def c)
    then obtain k where k: "hash_key v = Inr k" using hash_key_ok [of v] by blast
    from Cons.prems(1) obtain idx where idx: "ix a = Some idx" by auto
    define ix1 where
      "ix1 = ix(a \<mapsto> idx(k \<mapsto> insert item (case idx k of None \<Rightarrow> {} | Some s \<Rightarrow> s)))"
    have "set as \<subseteq> dom ix1"
      using Cons.prems(1) by (auto simp: ix1_def)
    from Cons.IH [OF this rest, of "AList.update a k r"] obtain res where
      res: "index_attrs h item as (ix1, AList.update a k r) = Inr res" by blast
    have "index_attrs h item (a # as) (ix, r) = index_attrs h item as (ix1, AList.update a k r)"
      using Some c k idx by (simp add: Let_def ix1_def)
    then show ?thesis using res by simp
  qed
qed

lemma index_total:
  assumes inv: "cat_inv cat" and ok: "indexable (attrs cat) h item"
  shows "\<exists>cat'. index h cat item = Inr cat'"
proof -
  from pre_index [OF inv, of item] obtain cat1 where
    c1: "(if item \<in> items cat then unindex cat item else Inr cat) = Inr cat1"
    and inv1: "cat_inv cat1" and at1: "attrs cat1 = attrs cat"
    by blast
  have "set (attrs cat1) \<subseteq> dom (indexes cat1)" using cat_invD(3) [OF inv1] by simp
  moreover have "indexable (attrs cat1) h item" using ok at1 by simp
  ultimately obtain res where
    "index_attrs h item (attrs cat1)
       (indexes cat1, case values' cat1 item of None \<Rightarrow> [] | Some r \<Rightarrow> r) = Inr res"
    using index_attrs_total by blast
  then show ?thesis using c1 by (cases res) (simp add: index_def)
qed

lemma run_ops_total:
  assumes "cat_inv cat" and "list_all (op_ok (attrs cat)) ops"
  shows "\<exists>cat'. run_ops cat ops = Inr cat'"
  using assms
proof (induction ops arbitrary: cat)
  case Nil
  show ?case by simp
next
  case (Cons op ops)
  have "\<exists>cat1. run_op cat op = Inr cat1 \<and> cat_inv cat1 \<and> attrs cat1 = attrs cat"
  proof (cases op)
    case (CallIndex h item)
    with Cons.prems(2) have "indexable (attrs cat) h item" by simp
    from index_total [OF Cons.prems(1) this] obtain cat1 where i: "index h cat item = Inr cat1" ..
    from index_inv [OF Cons.prems(1) i] i show ?thesis using CallIndex by auto
  next
    case (CallUnindex item)
    from unindex_inv [OF Cons.prems(1), of item] show ?thesis using CallUnindex by auto
  qed
  then obtain cat1 where s: "run_op cat op = Inr cat1" "cat_inv cat1" "attrs cat1 = attrs cat"
    by blast
  have "list_all (op_ok (attrs cat1)) ops" using Cons.prems(2) s(3) by simp
  from Cons.IH [OF s(2) this] show ?case using s(1) by simp
qed


lemma reg1: "registered [''uid'', ''name'']
                 [CallIndex ex_nodes 0, CallIndex ex_nodes 1, CallUnindex 0] i
       = (if i = 1 then Some (snapshot [''uid'', ''name''] ex_nodes 1) else None)"
  by (simp add: registered_def)

lemma snap1: "snapshot [''uid'', ''name''] ex_nodes 1 ''name'' = Some (JStr ''n'')"
  by (simp add: snapshot_def attr_key_def ex_nodes_def cell_def)

theorem catalog_search_consistent_witness:
  "\<exists>cat found.
      run_ops (new_catalog [''uid'', ''name''])
        [CallIndex ex_nodes 0, CallIndex ex_nodes 1, CallUnindex 0] = Inr cat
      \<and> search cat [(''name'', JStr ''n'')] = Inr found \<and> set found = {1}"
proof -
  have "list_all (op_ok (attrs (new_catalog [''uid'', ''name''])))
          [CallIndex ex_nodes 0, CallIndex ex_nodes 1, CallUnindex 0]"
    by (simp add: new_catalog_def indexable_def ex_nodes_def cell_def)
  from run_ops_total [OF cat_inv_new this]
  obtain cat where run: "run_ops (new_catalog [''uid'', ''name''])
           [CallIndex ex_nodes 0, CallIndex ex_nodes 1, CallUnindex 0] = Inr cat" ..
  have ne: "[(''name'', JStr ''n'')] \<noteq> []" by simp
  have ok: "\<forall>(attr, v) \<in> set [(''name'', JStr ''n'')].
              attr \<in> set [''uid'', ''name''] \<and> (\<exists>k. hash_key v = Inr k)"
    by simp
  have reg: "{i. \<exists>s k. registered [''uid'', ''name'']
                 [CallIndex ex_nodes 0, CallIndex ex_nodes 1, CallUnindex 0] i = Some s
               \<and> hash_key (JStr ''n'') = Inr k \<and> s ''name'' = Some k} = {1}"
    unfolding reg1 using snap1 by (auto split: if_splits)
  from catalog_search_consistent [OF run ne ok] obtain found where
    "search cat [(''name'', JStr ''n'')] = Inr found"
    "set found = (\<Inter>(attr, v) \<in> set [(''name'', JStr ''n'')].
                 {i. \<exists>s k. registered [''uid'', ''name'']
                      [CallIndex ex_nodes 0, CallIndex ex_nodes 1, CallUnindex 0] i = Some s
                    \<and> hash_key v = Inr k \<and> s attr = Some k})"
    by blast
  then have "search cat [(''name'', JStr ''n'')] = Inr found \<and> set found = {1}"
    using reg by simp
  with run show ?thesis by blast
qed


section \<open>Traversal: properties\<close>

subsection \<open>Trees\<close>

lemma map_snd_iter_json_children:
  "shape_ok sh (length vs) \<Longrightarrow> map snd (iter_json_children (node_cell sh vs)) = vs"
proof (cases sh)
  case (SDict r ks)
  assume "shape_ok sh (length vs)"
  then have "length ks = length vs" using SDict by simp
  then have "map snd (zip ks vs) = vs" by simp
  then show ?thesis using SDict by (simp add: comp_def case_prod_unfold)
next
  case SList
  have "map snd (zip (map Index [0..<length vs]) vs) = vs" by simp
  then show ?thesis using SList by simp
qed

lemma map_filter_snd:
  "List.map_filter (\<lambda>(_, child). f child) xs = List.map_filter f (map snd xs)"
  by (induction xs) (auto simp: List.map_filter_def)

lemma map_filter_rev: "List.map_filter f (rev xs) = rev (List.map_filter f xs)"
  by (simp add: List.map_filter_def rev_map rev_filter)

lemma map_filter_ref_in_tval:
  "list_all (rep h) ts \<Longrightarrow> List.map_filter (ref_in h) (map tval ts) = kids ts"
proof (induction ts)
  case Nil
  show ?case by (simp add: List.map_filter_def kids_def)
next
  case (Cons t ts)
  then have ih: "List.map_filter (ref_in h) (map tval ts) = kids ts" by simp
  show ?case
  proof (cases t)
    case (TLeaf v)
    with Cons.prems have "ref_in h v = None" by (cases v) simp_all
    then show ?thesis using ih TLeaf
      by (simp add: List.map_filter_def kids_def)
  next
    case (TNode a sh us)
    with Cons.prems have "a < length h" by (simp add: cell_def split: if_splits)
    then show ?thesis using ih TNode
      by (simp add: List.map_filter_def kids_def)
  qed
qed

lemma walk_down_rep:
  assumes "rep h (TNode a sh ts)"
  shows "fst (walk_down h c a) = rev (kids ts)"
proof -
  from assms have c: "cell h a = Some (node_cell sh (map tval ts))"
    and ok: "shape_ok sh (length (map tval ts))" and r: "list_all (rep h) ts"
    by simp_all
  have "fst (walk_down h c a)
          = List.map_filter (ref_in h) (rev (map snd (iter_json_children (node_cell sh (map tval ts)))))"
    by (simp add: walk_down_def c Let_def map_filter_snd rev_map)
  also have "\<dots> = rev (List.map_filter (ref_in h) (map tval ts))"
    by (simp only: map_snd_iter_json_children [OF ok] map_filter_rev)
  finally show ?thesis by (simp add: map_filter_ref_in_tval [OF r])
qed


lemma kids_filter: "kids ts = map taddr (filter is_node ts)"
proof (induction ts)
  case Nil
  show ?case by (simp add: kids_def)
next
  case (Cons t ts)
  then show ?case by (cases t) (simp_all add: kids_def)
qed

lemma caddrs_filter: "concat (map caddrs (filter is_node ts)) = concat (map caddrs ts)"
proof (induction ts)
  case Nil
  show ?case by simp
next
  case (Cons t ts)
  then show ?case by (cases t) simp_all
qed

lemma tsize_filter: "sum_list (map tsize (filter is_node ts)) \<le> sum_list (map tsize ts)"
  by (induction ts) auto

lemma traverse_graph_pop:
  "item \<notin> visited \<Longrightarrow>
   map hd (fst (traverse_graph h WalkDown c ((item, rest) # queue) visited)) =
     item # map hd (fst (traverse_graph h WalkDown (snd (walk_down h c item))
                     (rev (map (\<lambda>n. (n, item # rest)) (fst (walk_down h c item))) @ queue)
                     (insert item visited)))"
  by (simp add: Let_def)

lemma dfs_forest:
  assumes "list_all (rep h) ts" and "list_all is_node ts"
    and "distinct (concat (map caddrs ts))"
    and "set (concat (map caddrs ts)) \<inter> visited = {}"
    and "map fst queue = map taddr ts"
  shows "map hd (fst (traverse_graph h WalkDown c queue visited)) = concat (map caddrs ts)"
  using assms
proof (induction "sum_list (map tsize ts)" arbitrary: ts c queue visited rule: less_induct)
  case less
  show ?case
  proof (cases ts)
    case Nil
    with less.prems(5) show ?thesis by simp
  next
    case (Cons t ts')
    with less.prems(2) obtain a sh us where t: "t = TNode a sh us"
      by (cases t) simp_all
    from less.prems(5) Cons t obtain rest queue' where
      q: "queue = (a, rest) # queue'" and q': "map fst queue' = map taddr ts'"
      by (cases queue) auto
    have ra: "rep h (TNode a sh us)" and rus: "list_all (rep h) us" and rts': "list_all (rep h) ts'"
      using less.prems(1) Cons t by simp_all
    have nv: "a \<notin> visited" using less.prems(4) Cons t by simp
    define ts1 where "ts1 = filter is_node us @ ts'"
    define queue1 where "queue1 = rev (map (\<lambda>n. (n, a # rest)) (fst (walk_down h c a))) @ queue'"
    have wd: "fst (walk_down h c a) = rev (kids us)" by (rule walk_down_rep [OF ra])
    have q1: "map fst queue1 = map taddr ts1"
      by (simp add: queue1_def ts1_def wd rev_map [symmetric] kids_filter q' comp_def)
    have c1: "concat (map caddrs ts1) = concat (map caddrs us) @ concat (map caddrs ts')"
      by (simp add: ts1_def caddrs_filter)
    have all: "concat (map caddrs ts) = a # concat (map caddrs us) @ concat (map caddrs ts')"
      by (simp add: Cons t)
    have d1: "distinct (concat (map caddrs ts1))"
      using less.prems(3) unfolding all c1 by simp
    have v1: "set (concat (map caddrs ts1)) \<inter> insert a visited = {}"
      using less.prems(3,4) unfolding all c1 by auto
    have r1: "list_all (rep h) ts1"
      using rus rts' by (auto simp: ts1_def list_all_iff)
    have n1: "list_all is_node ts1"
      using less.prems(2) Cons by (auto simp: ts1_def list_all_iff)
    have sz: "sum_list (map tsize ts1) < sum_list (map tsize ts)"
      using tsize_filter [of us] by (simp add: ts1_def Cons t)
    have "map hd (fst (traverse_graph h WalkDown (snd (walk_down h c a)) queue1 (insert a visited)))
            = concat (map caddrs ts1)"
      by (rule less.hyps [OF sz r1 n1 d1 v1 q1])
    then show ?thesis
      unfolding q traverse_graph_pop [OF nv] all c1 queue1_def by simp
  qed
qed


lemma traverse_tree:
  assumes "rep h t" and "distinct (caddrs t)" and "is_node t"
  shows "fst (traverse h c (tval t)) = filter (is_object h) (caddrs t)"
proof -
  from assms(3) obtain a sh us where t: "t = TNode a sh us" by (cases t) simp_all
  from assms(1) t have "a < length h" by (simp add: cell_def split: if_splits)
  then have r: "ref_in h (tval t) = Some a" by (simp add: t)
  have "map hd (fst (traverse_graph h WalkDown c [(a, [])] {})) = concat (map caddrs [t])"
    by (rule dfs_forest) (use assms t in simp_all)
  then show ?thesis
    by (simp add: traverse_def r Let_def)
qed

text \<open>
  On a tree the order is the document order, and the example is a list of two nodes.
\<close>

lemma traverse_tree_example:
  "fst (traverse ex_tree_heap Map.empty (JRef 0)) = [1, 2]"
proof -
  have r: "rep ex_tree_heap ex_tree"
    by (simp add: ex_tree_heap_def ex_tree_def cell_def)
  have d: "distinct (caddrs ex_tree)" by (simp add: ex_tree_def)
  have n: "is_node ex_tree" by (simp add: ex_tree_def)
  have v: "tval ex_tree = JRef 0" by (simp add: ex_tree_def)
  have f: "filter (is_object ex_tree_heap) (caddrs ex_tree) = [1, 2]"
    by (simp add: ex_tree_heap_def ex_tree_def is_object_def cell_def)
  from traverse_tree [OF r d n, of Map.empty] show ?thesis
    by (simp only: v f)
qed

subsection \<open>Any store\<close>

inductive_cases preorder_NilE: "preorder h [] seen out seen'"

inductive_cases preorder_ConsE: "preorder h (a # todo) seen out seen'"

lemma reaches_step: "contains h n item \<Longrightarrow> (item, x) \<in> reaches h \<Longrightarrow> (n, x) \<in> reaches h"
  unfolding reaches_def by (rule converse_rtrancl_into_rtrancl) simp_all

lemma cell_values_children: "map snd (iter_json_children cont) = cell_values cont"
  by (cases cont) (simp_all add: comp_def case_prod_unfold)

lemma walk_down_members: "fst (walk_down h c a) = rev (members h a)"
  by (simp add: walk_down_def members_def Let_def map_filter_snd map_filter_rev rev_map
        cell_values_children split: option.splits)

lemma members_valid: "b \<in> set (members h a) \<Longrightarrow> b < length h"
  using walk_down_valid [of b h Map.empty a] by (simp add: walk_down_members)

lemma map_filter_ref_in_set:
  "b \<in> set (List.map_filter (ref_in h) vs) \<longleftrightarrow> JRef b \<in> set vs \<and> b < length h"
proof (induction vs)
  case Nil
  show ?case by (simp add: List.map_filter_simps)
next
  case (Cons v vs)
  show ?case
  proof (cases v)
    case (JRef a)
    then show ?thesis using Cons.IH by (auto simp: List.map_filter_simps)
  qed (use Cons.IH in \<open>simp_all add: List.map_filter_simps\<close>)
qed

lemma members_contains:
  "b \<in> set (members h a) \<longleftrightarrow> contains h a b \<and> b < length h"
proof (cases "a < length h")
  case True
  then show ?thesis
    by (simp add: members_def contains_def cell_def map_filter_ref_in_set)
next
  case False
  then show ?thesis
    by (simp add: members_def contains_def cell_def)
qed

lemma preorder_split:
  "preorder h todo seen out seen' \<Longrightarrow> todo = xs @ ys \<Longrightarrow>
   \<exists>out1 out2 seen1. out = out1 @ out2 \<and> preorder h xs seen out1 seen1
                        \<and> preorder h ys seen1 out2 seen'"
proof (induction arbitrary: xs ys rule: preorder.induct)
  case (pre_done h seen)
  then have "xs = []" "ys = []" by simp_all
  moreover have "[] = [] @ ([] :: addr list)" by simp
  moreover have "preorder h [] seen [] seen" by (rule preorder.pre_done)
  ultimately show ?case by blast
next
  case (pre_skip a seen h todo out seen')
  show ?case
  proof (cases xs)
    case Nil
    with pre_skip.prems have ys: "ys = a # todo" by simp
    have "preorder h ys seen out seen'"
      unfolding ys using pre_skip.hyps by (rule preorder.pre_skip)
    moreover have "preorder h xs seen [] seen"
      unfolding Nil by (rule preorder.pre_done)
    moreover have "out = [] @ out" by simp
    ultimately show ?thesis by blast
  next
    case (Cons x xs')
    with pre_skip.prems have x: "x = a" and todo: "todo = xs' @ ys" by simp_all
    from pre_skip.IH [OF todo] obtain out1 out2 seen1 where
      o: "out = out1 @ out2" "preorder h xs' seen out1 seen1" "preorder h ys seen1 out2 seen'"
      by blast
    have "preorder h xs seen out1 seen1"
      unfolding Cons x using pre_skip.hyps(1) o(2) by (rule preorder.pre_skip)
    with o(1,3) show ?thesis by blast
  qed
next
  case (pre_visit a seen h out1 seen1 todo out2 seen2)
  show ?case
  proof (cases xs)
    case Nil
    with pre_visit.prems have ys: "ys = a # todo" by simp
    have "preorder h ys seen (a # out1 @ out2) seen2"
      unfolding ys using pre_visit.hyps by (rule preorder.pre_visit)
    moreover have "preorder h xs seen [] seen"
      unfolding Nil by (rule preorder.pre_done)
    moreover have "a # out1 @ out2 = [] @ (a # out1 @ out2)" by simp
    ultimately show ?thesis by blast
  next
    case (Cons x xs')
    with pre_visit.prems have x: "x = a" and todo: "todo = xs' @ ys" by simp_all
    from pre_visit.IH(2) [OF todo] obtain o1 o2 s1 where
      o: "out2 = o1 @ o2" "preorder h xs' seen1 o1 s1" "preorder h ys s1 o2 seen2"
      by blast
    have "preorder h xs seen (a # out1 @ o1) s1"
      unfolding Cons x using pre_visit.hyps(1,2) o(2) by (rule preorder.pre_visit)
    moreover have "a # out1 @ out2 = (a # out1 @ o1) @ o2"
      by (simp add: o(1))
    ultimately show ?thesis
      using o(3) by blast
  qed
qed

lemma traverse_graph_preorder:
  "\<exists>seen'. preorder h (map fst queue) visited
             (map hd (fst (traverse_graph h WalkDown c queue visited))) seen'"
proof (induction h WalkDown c queue visited rule: traverse_graph.induct)
  case (1 h c visited)
  have "preorder h [] visited [] visited" by (rule pre_done)
  then show ?case by auto
next
  case (2 h c item rest queue visited)
  show ?case
  proof (cases "item \<in> visited")
    case True
    from "2.hyps"(1) [OF True] obtain seen' where
      "preorder h (map fst queue) visited
         (map hd (fst (traverse_graph h WalkDown c queue visited))) seen'" by blast
    with True have "preorder h (item # map fst queue) visited
         (map hd (fst (traverse_graph h WalkDown c queue visited))) seen'"
      by (rule pre_skip)
    with True show ?thesis by auto
  next
    case False
    define q where "q = rev (map (\<lambda>n. (n, item # rest)) (fst (walk_down h c item))) @ queue"
    define out where "out = map hd (fst (traverse_graph h WalkDown (snd (walk_down h c item)) q
                  (insert item visited)))"
    have q: "map fst q = members h item @ map fst queue"
      by (simp add: q_def walk_down_members rev_map [symmetric] comp_def)
    from "2.hyps"(2) [OF False refl] obtain seen' where
      "preorder h (map fst q) (insert item visited) out seen'"
      unfolding q_def out_def by auto
    from preorder_split [OF this q] obtain out1 out2 seen1 where
      o: "out = out1 @ out2" "preorder h (members h item) (insert item visited) out1 seen1"
         "preorder h (map fst queue) seen1 out2 seen'"
      by blast
    have "preorder h (item # map fst queue) visited (item # out1 @ out2) seen'"
      using False o(2,3) by (rule pre_visit)
    moreover have "map hd (fst (traverse_graph h WalkDown c ((item, rest) # queue) visited))
                     = item # out1 @ out2"
      unfolding traverse_graph_pop [OF False] o(1) [symmetric] out_def q_def ..
    ultimately show ?thesis by auto
  qed
qed

lemma preorder_seen:
  "preorder h todo seen out seen' \<Longrightarrow>
     seen' = seen \<union> set out \<and> distinct out \<and> set out \<inter> seen = {} \<and> set todo \<subseteq> seen'"
proof (induction rule: preorder.induct)
  case (pre_done h seen)
  show ?case by simp
next
  case (pre_skip a seen h todo out seen')
  then show ?case by auto
next
  case (pre_visit a seen h out1 seen1 todo out2 seen2)
  from pre_visit.IH(1) have 1: "seen1 = insert a seen \<union> set out1" "distinct out1"
    "set out1 \<inter> insert a seen = {}" by blast+
  from pre_visit.IH(2) have 2: "seen2 = seen1 \<union> set out2" "distinct out2"
    "set out2 \<inter> seen1 = {}" "set todo \<subseteq> seen2" by blast+
  have "seen2 = seen \<union> set (a # out1 @ out2)"
    unfolding 2(1) 1(1) by auto
  moreover have "distinct (a # out1 @ out2)"
    using 1(2,3) 2(2,3) unfolding 1(1) by auto
  moreover have "set (a # out1 @ out2) \<inter> seen = {}"
    using pre_visit.hyps(1) 1(3) 2(3) unfolding 1(1) by auto
  moreover have "set (a # todo) \<subseteq> seen2"
    using 2(4) unfolding 2(1) 1(1) by auto
  ultimately show ?case by (intro conjI)
qed

lemma preorder_closed:
  "preorder h todo seen out seen' \<Longrightarrow> \<forall>x \<in> set out. set (members h x) \<subseteq> seen'"
proof (induction rule: preorder.induct)
  case (pre_done h seen)
  show ?case by simp
next
  case (pre_skip a seen h todo out seen')
  then show ?case by simp
next
  case (pre_visit a seen h out1 seen1 todo out2 seen2)
  from preorder_seen [OF pre_visit.hyps(2)] preorder_seen [OF pre_visit.hyps(3)]
  have a: "set (members h a) \<subseteq> seen1" and m: "seen1 \<subseteq> seen2" by auto
  show ?case
  proof
    fix x assume "x \<in> set (a # out1 @ out2)"
    then consider "x = a" | "x \<in> set out1" | "x \<in> set out2" by auto
    then show "set (members h x) \<subseteq> seen2"
    proof cases
      case 1
      with a m show ?thesis by blast
    next
      case 2
      with pre_visit.IH(1) have "set (members h x) \<subseteq> seen1" by blast
      with m show ?thesis by blast
    next
      case 3
      with pre_visit.IH(2) show ?thesis by blast
    qed
  qed
qed

lemma preorder_reached:
  "preorder h todo seen out seen' \<Longrightarrow> \<forall>x \<in> set out. \<exists>t \<in> set todo. (t, x) \<in> reaches h"
proof (induction rule: preorder.induct)
  case (pre_done h seen)
  show ?case by simp
next
  case (pre_skip a seen h todo out seen')
  then show ?case by auto
next
  case (pre_visit a seen h out1 seen1 todo out2 seen2)
  have "(a, x) \<in> reaches h" if "x \<in> set out1" for x
  proof -
    from pre_visit.IH(1) that obtain t where t: "t \<in> set (members h a)" "(t, x) \<in> reaches h"
      by blast
    from t(1) have "contains h a t" by (simp add: members_contains)
    then show ?thesis using t(2) by (rule reaches_step)
  qed
  note o1 = this
  have aa: "(a, a) \<in> reaches h" by (simp add: reaches_def)
  show ?case
  proof
    fix x assume "x \<in> set (a # out1 @ out2)"
    then consider "x = a" | "x \<in> set out1" | "x \<in> set out2" by auto
    then show "\<exists>t \<in> set (a # todo). (t, x) \<in> reaches h"
    proof cases
      case 1
      with aa show ?thesis by simp
    next
      case 2
      from o1 [OF this] show ?thesis by simp
    next
      case 3
      with pre_visit.IH(2) obtain t where "t \<in> set todo" "(t, x) \<in> reaches h" by blast
      then show ?thesis by auto
    qed
  qed
qed

lemma preorder_deterministic:
  "preorder h todo seen out seen' \<Longrightarrow> preorder h todo seen out2 seen2 \<Longrightarrow>
     out2 = out \<and> seen2 = seen'"
proof (induction arbitrary: out2 seen2 rule: preorder.induct)
  case (pre_done h seen)
  from pre_done.prems show ?case by (rule preorder_NilE) simp
next
  case (pre_skip a seen h todo out seen')
  from pre_skip.prems have "preorder h todo seen out2 seen2"
    by (rule preorder_ConsE) (use pre_skip.hyps(1) in simp_all)
  then show ?case by (rule pre_skip.IH)
next
  case (pre_visit a seen h out1 seen1 todo out2' seen2')
  from pre_visit.prems show ?case
  proof (rule preorder_ConsE)
    assume "a \<in> seen"
    with pre_visit.hyps(1) show ?thesis by simp
  next
    fix o1 s1 o2
    assume o: "out2 = a # o1 @ o2" "preorder h (members h a) (insert a seen) o1 s1"
      "preorder h todo s1 o2 seen2"
    from pre_visit.IH(1) [OF o(2)] have 1: "o1 = out1" "s1 = seen1" by simp_all
    from pre_visit.IH(2) [OF o(3) [unfolded 1]] have "o2 = out2'" "seen2 = seen2'" by simp_all
    with o(1) 1 show ?thesis by simp
  qed
qed

lemma preorder_set:
  assumes "preorder h [s] {} out seen'"
  shows "set (filter (is_object h) out) = {a. (s, a) \<in> reaches h \<and> is_object h a}"
proof -
  from preorder_seen [OF assms] have seen: "seen' = set out" and s: "s \<in> set out" by auto
  from preorder_closed [OF assms] have closed: "\<forall>x \<in> set out. set (members h x) \<subseteq> set out"
    by (simp add: seen)
  have sound: "(s, x) \<in> reaches h" if "x \<in> set out" for x
    using preorder_reached [OF assms] that by auto
  have complete: "a < length h \<longrightarrow> a \<in> set out" if "(s, a) \<in> reaches h" for a
    using that unfolding reaches_def
  proof (induction rule: rtrancl_induct)
    case base
    show ?case using s by simp
  next
    case (step b a)
    from step.hyps(2) have c: "contains h b a" by simp
    then have "b < length h" by (simp add: contains_def)
    with step.IH have b: "b \<in> set out" by simp
    show ?case
    proof
      assume "a < length h"
      with c have "a \<in> set (members h b)" by (simp add: members_contains)
      with closed b show "a \<in> set out" by blast
    qed
  qed
  have obj: "is_object h a \<Longrightarrow> a < length h" for a
    by (simp add: is_object_def cell_def split: if_splits)
  show ?thesis
  proof (intro set_eqI iffI)
    fix a assume "a \<in> set (filter (is_object h) out)"
    then show "a \<in> {a. (s, a) \<in> reaches h \<and> is_object h a}"
      using sound by simp
  next
    fix a assume "a \<in> {a. (s, a) \<in> reaches h \<and> is_object h a}"
    then have r: "(s, a) \<in> reaches h" and o: "is_object h a" by simp_all
    from complete [OF r] obj [OF o] have "a \<in> set out" by simp
    with o show "a \<in> set (filter (is_object h) out)" by simp
  qed
qed

lemma traverse_graph_cache:
  "map hd (fst (traverse_graph h WalkDown c' queue visited))
     = map hd (fst (traverse_graph h WalkDown c queue visited))"
proof -
  obtain seen1 where 1: "preorder h (map fst queue) visited
      (map hd (fst (traverse_graph h WalkDown c queue visited))) seen1"
    using traverse_graph_preorder by blast
  obtain seen2 where 2: "preorder h (map fst queue) visited
      (map hd (fst (traverse_graph h WalkDown c' queue visited))) seen2"
    using traverse_graph_preorder by blast
  from preorder_deterministic [OF 1 2] show ?thesis by simp
qed

lemma preorder_start:
  assumes "preorder h [s] {} out seen"
  obtains rest where "out = s # rest"
  using assms by (rule preorder_ConsE) simp_all

text \<open>
  Claim C2, amended. For every container \<open>start\<close>, whatever the store looks like (shared
  and cyclic references included) and whatever the parent cache holds,
  \<^verbatim>\<open>traverse(start)\<close> yields the objects of the depth-first pre-order of the containers
  reachable from \<open>start\<close>, \<open>start\<close> included: \<open>preorder\<close> visits a container, then the
  containers it holds from left to right, each with all that is below it, and passes over a
  container it has visited before. So only objects are yielded, each object reachable from
  \<open>start\<close> exactly once, \<open>start\<close> itself first exactly when it is an object, and a call
  with any other cache (the one a first call leaves behind, say) yields the same sequence.
\<close>

theorem traverse_preorder:
  assumes "ref_in h start = Some s"
  shows "(\<exists>rest seen. preorder h [s] {} (s # rest) seen
            \<and> fst (traverse h c start) = filter (is_object h) (s # rest))
         \<and> list_all (is_object h) (fst (traverse h c start))
         \<and> distinct (fst (traverse h c start))
         \<and> set (fst (traverse h c start)) = {a. (s, a) \<in> reaches h \<and> is_object h a}
         \<and> fst (traverse h c' start) = fst (traverse h c start)"
proof -
  define out where "out = map hd (fst (traverse_graph h WalkDown c [(s, [])] {}))"
  have t: "fst (traverse h c start) = filter (is_object h) out"
    by (simp add: traverse_def assms Let_def out_def)
  have "fst (traverse h c' start)
          = filter (is_object h) (map hd (fst (traverse_graph h WalkDown c' [(s, [])] {})))"
    unfolding traverse_def assms Let_def by simp
  then have t': "fst (traverse h c' start) = filter (is_object h) out"
    unfolding out_def by (simp only: traverse_graph_cache [of h c' _ _ c])
  obtain seen where p: "preorder h [s] {} out seen"
    using traverse_graph_preorder [of h "[(s, [])]" "{}" c] unfolding out_def by auto
  from p obtain rest where rest: "out = s # rest" by (rule preorder_start)
  have "\<exists>rest seen. preorder h [s] {} (s # rest) seen
            \<and> fst (traverse h c start) = filter (is_object h) (s # rest)"
    using p t unfolding rest by blast
  moreover have "list_all (is_object h) (fst (traverse h c start))"
    unfolding t by (simp add: list_all_iff)
  moreover have "distinct (fst (traverse h c start))"
    unfolding t using preorder_seen [OF p] by simp
  moreover have "set (fst (traverse h c start)) = {a. (s, a) \<in> reaches h \<and> is_object h a}"
    unfolding t by (rule preorder_set [OF p])
  moreover have "fst (traverse h c' start) = fst (traverse h c start)"
    unfolding t t' ..
  ultimately show ?thesis by (intro conjI)
qed

theorem traverse_preorder_witness:
  "fst (traverse ex_shared Map.empty (JRef 0)) = [0, 2]
   \<and> set (fst (traverse ex_shared Map.empty (JRef 0)))
       = {a. (0, a) \<in> reaches ex_shared \<and> is_object ex_shared a}
   \<and> fst (traverse ex_shared (snd (traverse ex_shared Map.empty (JRef 0))) (JRef 0)) = [0, 2]"
proof -
  have r: "ref_in ex_shared (JRef 0) = Some 0"
    by (simp add: ex_shared_def)
  have t: "fst (traverse ex_shared Map.empty (JRef 0)) = [0, 2]"
    by (simp add: traverse_def Let_def walk_down_def cell_def List.map_filter_def is_object_def
          ex_shared_def)
  from traverse_preorder [OF r, of Map.empty "snd (traverse ex_shared Map.empty (JRef 0))"]
  have "set (fst (traverse ex_shared Map.empty (JRef 0)))
          = {a. (0, a) \<in> reaches ex_shared \<and> is_object ex_shared a}"
    and "fst (traverse ex_shared (snd (traverse ex_shared Map.empty (JRef 0))) (JRef 0))
          = fst (traverse ex_shared Map.empty (JRef 0))"
    by blast+
  with t show ?thesis by simp
qed

text \<open>
  Claim C2 as stated fails where it says that \<open>start\<close> itself is excluded: started at an
  object, \<^verbatim>\<open>traverse\<close> yields that object first (\<^verbatim>\<open>_traverse_graph\<close> yields the chain of
  the start item before any neighbour, and \<^verbatim>\<open>traverse\<close> keeps every dict).
\<close>

theorem traverse_yields_start_counterexample:
  "fst (traverse [JDict False [(''node'', JRef 1)], JList []] Map.empty (JRef 0)) = [0]"
  by (simp add: traverse_def Let_def walk_down_def cell_def List.map_filter_def is_object_def)


section \<open>Ancestors and paths: properties\<close>

lemma walk_up_contains:
  assumes "fresh h c" and "n \<in> set (walk_up h c item)"
  shows "contains h n item"
proof (cases "c item")
  case None
  with assms(2) show ?thesis by (simp add: walk_up_def referrers_def contains_def)
next
  case (Some p)
  with assms(1) have "contains h p item" by (simp add: fresh_def)
  with assms(2) Some show ?thesis
    by (auto simp: walk_up_def referrers_def contains_def split: if_splits)
qed

lemma up_sound:
  "fresh h c \<Longrightarrow> \<forall>(i, rest) \<in> set queue. (i, x) \<in> reaches h \<Longrightarrow>
   chain \<in> set (fst (traverse_graph h WalkUp c queue visited)) \<Longrightarrow>
   (hd chain, x) \<in> reaches h"
proof (induction h WalkUp c queue visited rule: traverse_graph.induct)
  case (1 h c visited)
  then show ?case by simp
next
  case (2 h c item rest queue visited)
  note fr = "2.prems"(1) and qs = "2.prems"(2) and mem = "2.prems"(3)
  show ?case
  proof (cases "item \<in> visited")
    case True
    with mem have "chain \<in> set (fst (traverse_graph h WalkUp c queue visited))" by simp
    moreover have "\<forall>(i, rest) \<in> set queue. (i, x) \<in> reaches h" using qs by simp
    ultimately show ?thesis using "2.hyps"(1) [OF True fr] by blast
  next
    case False
    let ?q = "rev (map (\<lambda>n. (n, item # rest)) (walk_up h c item)) @ queue"
    from mem False
    have "chain = item # rest
          \<or> chain \<in> set (fst (traverse_graph h WalkUp c ?q (insert item visited)))"
      by (simp add: Let_def)
    then show ?thesis
    proof
      assume "chain = item # rest"
      then show ?thesis using qs by simp
    next
      assume m: "chain \<in> set (fst (traverse_graph h WalkUp c ?q (insert item visited)))"
      have ix: "(item, x) \<in> reaches h" using qs by simp
      have "\<forall>(i, r) \<in> set ?q. (i, x) \<in> reaches h"
      proof (clarify)
        fix i r assume "(i, r) \<in> set ?q"
        then have "i \<in> set (walk_up h c item) \<or> (i, r) \<in> set queue" by auto
        then show "(i, x) \<in> reaches h"
        proof
          assume "i \<in> set (walk_up h c item)"
          from walk_up_contains [OF fr this] ix show ?thesis by (rule reaches_step)
        next
          assume "(i, r) \<in> set queue"
          then show ?thesis using qs by auto
        qed
      qed
      with m show ?thesis using "2.hyps"(2) [OF False refl] fr by simp
    qed
  qed
qed


lemma top_is_root_hd: "top_is_root h chain \<Longrightarrow> is_root h (hd chain)"
  by (cases chain) simp_all

text \<open>
  On a parent cache without stale entries the sentinel is reached: a container \<open>x\<close> that is
  not reachable from any \<^verbatim>\<open>JSONTreeRoot\<close> gets no ancestor chain (\<^verbatim>\<open>parents\<close> returns
  \<^verbatim>\<open>None\<close>) and \<^verbatim>\<open>json_path(x)\<close> returns \<^verbatim>\<open><broken_json_path>\<close>.
\<close>

lemma unreachable_path_is_sentinel:
  assumes "fresh h c" and "\<forall>r. is_root h r \<longrightarrow> (r, x) \<notin> reaches h"
  shows "fst (parents h c x) = None \<and> fst (json_path h c x) = Inr ''<broken_json_path>''"
proof -
  have start: "\<forall>(i, rest) \<in> set [(x, [])]. (i, x) \<in> reaches h"
    by (simp add: reaches_def)
  have "\<not> top_is_root h chain"
    if "chain \<in> set (fst (traverse_graph h WalkUp c [(x, [])] {}))" for chain
  proof
    assume "top_is_root h chain"
    then have "is_root h (hd chain)" by (rule top_is_root_hd)
    moreover have "(hd chain, x) \<in> reaches h"
      by (rule up_sound [OF assms(1) start that])
    ultimately show False using assms(2) by blast
  qed
  then have "find (top_is_root h) (fst (traverse_graph h WalkUp c [(x, [])] {})) = None"
    by (simp add: find_None_iff)
  then have "fst (parents h c x) = None" by (simp add: parents_def)
  then show ?thesis by (simp add: json_path_def Let_def broken_json_path_def)
qed

lemma ex_doc_pruned_closed:
  "(0, y) \<in> reaches ex_doc_pruned \<Longrightarrow> y \<in> {0, 1, 3}"
  unfolding reaches_def
proof (induction rule: rtrancl_induct)
  case base
  show ?case by simp
next
  case (step y z)
  then have "contains ex_doc_pruned y z" by simp
  with step.IH show ?case
    by (auto simp: contains_def ex_doc_pruned_def)
qed

lemma ex_doc_prune: "filter_out ex_doc 1 not_first None = Inr (ex_doc_pruned, [0], None)"
  by (simp add: filter_out_def ex_doc_def ex_doc_pruned_def cell_def not_first_def del_item_def)

lemma ex_doc_stale_path: "fst (json_path ex_doc_pruned (snd (traverse ex_doc Map.empty (JRef 0))) 2)
           = Inl ValueError"
  by code_simp


lemma ex_doc_stale_parents: "fst (parents ex_doc_pruned (snd (traverse ex_doc Map.empty (JRef 0))) 2)
           = Some [0, 1]"
  by code_simp

lemma unreachable_path_is_sentinel_example:
  "fst (parents ex_doc_pruned Map.empty 2) = None
   \<and> fst (json_path ex_doc_pruned Map.empty 2) = Inr ''<broken_json_path>''"
proof -
  have f: "fresh ex_doc_pruned Map.empty" by (simp add: fresh_def)
  have "r = 0" if "is_root ex_doc_pruned r" for r
  proof -
    from that have "r < 4" by (simp add: is_root_def cell_def ex_doc_pruned_def split: if_splits)
    then consider "r = 0" | "r = 1" | "r = 2" | "r = 3" by linarith
    then show ?thesis using that
      by cases (simp_all add: is_root_def cell_def ex_doc_pruned_def)
  qed
  moreover have "(0, 2) \<notin> reaches ex_doc_pruned"
    using ex_doc_pruned_closed [of 2] by auto
  ultimately have u: "\<forall>r. is_root ex_doc_pruned r \<longrightarrow> (r, 2) \<notin> reaches ex_doc_pruned"
    by blast
  from unreachable_path_is_sentinel [OF f u] show ?thesis .
qed

text \<open>
  Claim C9: for a container \<open>x\<close> that is not reachable from the document root, asking for
  its path raises nothing, \<^verbatim>\<open>parents\<close> returns no chain and \<^verbatim>\<open>json_path(x)\<close> returns
  \<^verbatim>\<open><broken_json_path>\<close>. The code misses this when the parent cache, which it never
  clears, holds a stale entry for \<open>x\<close>. Traverse the document
  \<^verbatim>\<open>{"a": [{"uid": 1}, {"uid": 2}]}\<close> (the cache now knows the parent of every container),
  delete the first element of the list with \<^verbatim>\<open>filter_out\<close>, and ask for the path of the
  deleted object: it is no longer reachable from the root, yet \<^verbatim>\<open>_walk_up\<close> yields the
  cached list instead of asking for the referrers, \<^verbatim>\<open>parents\<close> returns the chain
  (root, list), and \<^verbatim>\<open>json_path\<close> raises \<^verbatim>\<open>ValueError\<close> from \<^verbatim>\<open>parent.index(child)\<close>
  instead of returning the sentinel.
\<close>

theorem stale_cache_path_counterexample:
  "filter_out ex_doc 1 not_first None = Inr (ex_doc_pruned, [0], None)
   \<and> is_root ex_doc_pruned 0 \<and> (0, 2) \<notin> reaches ex_doc_pruned
   \<and> fst (parents ex_doc_pruned (snd (traverse ex_doc Map.empty (JRef 0))) 2) = Some [0, 1]
   \<and> fst (json_path ex_doc_pruned (snd (traverse ex_doc Map.empty (JRef 0))) 2)
       = Inl ValueError"
proof -
  have "is_root ex_doc_pruned 0" by (simp add: is_root_def cell_def ex_doc_pruned_def)
  moreover have "(0, 2) \<notin> reaches ex_doc_pruned"
    using ex_doc_pruned_closed [of 2] by auto
  ultimately show ?thesis using ex_doc_prune ex_doc_stale_path ex_doc_stale_parents by simp
qed


section \<open>Path round trip: properties\<close>

lemma is_digit_digit_char: "d < 10 \<Longrightarrow> is_digit (digit_char d)"
  by (simp add: is_digit_def digit_char_def Let_def)

lemma of_char_digit_char: "d < 10 \<Longrightarrow> (of_char (digit_char d) :: nat) = 48 + d"
  by (simp add: digit_char_def)

lemma show_nat_digits: "list_all is_digit (show_nat n)"
proof (induction n rule: show_nat.induct)
  case (1 n)
  show ?case
  proof (cases "n < 10")
    case True
    then show ?thesis by (subst show_nat.simps) (simp add: is_digit_digit_char)
  next
    case False
    then show ?thesis using 1
      by (subst show_nat.simps) (simp add: is_digit_digit_char)
  qed
qed

lemma show_nat_nonempty: "show_nat n \<noteq> []"
  by (subst show_nat.simps) simp

lemma int_of_digits_snoc:
  "int_of_digits (ds @ [ch]) = 10 * int_of_digits ds + (of_char ch - 48)"
  by (simp add: int_of_digits_def)

lemma int_of_digits_show_nat: "int_of_digits (show_nat n) = n"
proof (induction n rule: show_nat.induct)
  case (1 n)
  show ?case
  proof (cases "n < 10")
    case True
    then show ?thesis
      by (subst show_nat.simps) (simp add: int_of_digits_def of_char_digit_char)
  next
    case False
    then have "int_of_digits (show_nat (n div 10)) = n div 10" using 1 by simp
    then show ?thesis using False
      by (subst show_nat.simps) (simp add: int_of_digits_snoc of_char_digit_char)
  qed
qed


lemma sep_start_fmt: "sep_start (concat (map fmt_key ks))"
proof (cases ks)
  case Nil
  then show ?thesis by (simp add: sep_start_def)
next
  case (Cons k ks')
  then show ?thesis by (cases k) (simp_all add: sep_start_def)
qed

lemma takeWhile_word_sep: "sep_start s \<Longrightarrow> takeWhile is_word s = []"
  by (cases s) (auto simp: sep_start_def is_word_def Let_def)

lemma dropWhile_word_sep: "sep_start s \<Longrightarrow> dropWhile is_word s = s"
  by (cases s) (auto simp: sep_start_def is_word_def Let_def)

lemma parse_fmt_Key:
  assumes "k \<noteq> []" and "list_all is_word k" and "sep_start rest"
  shows "parse_json_path (fmt_key (Key k) @ rest) = Key k # parse_json_path rest"
proof -
  have w: "\<And>x. x \<in> set k \<Longrightarrow> is_word x" using assms(2) by (simp add: list_all_iff)
  have t: "takeWhile is_word (k @ rest) = k"
    using w assms(3) by (simp add: takeWhile_append2 takeWhile_word_sep)
  have d: "dropWhile is_word (k @ rest) = rest"
    using w assms(3) by (simp add: dropWhile_append2 dropWhile_word_sep)
  show ?thesis
    using assms(1) by (simp add: parse_json_path.simps(2) t d)
qed

lemma parse_fmt_Index:
  "parse_json_path (fmt_key (Index i) @ rest) = Index i # parse_json_path rest"
proof -
  have dg: "\<And>x. x \<in> set (show_nat i) \<Longrightarrow> is_digit x"
    using show_nat_digits [of i] by (simp add: list_all_iff)
  have nd: "\<not> is_digit CHR '']''" by (simp add: is_digit_def Let_def)
  have t: "takeWhile is_digit (show_nat i @ '']'' @ rest) = show_nat i"
    using dg nd by (simp add: takeWhile_append2)
  have d: "dropWhile is_digit (show_nat i @ '']'' @ rest) = '']'' @ rest"
    using dg nd by (simp add: dropWhile_append2)
  have nw: "\<not> is_word CHR ''[''" by (simp add: is_word_def Let_def)
  show ?thesis
    using nw t d show_nat_nonempty [of i]
    by (simp add: parse_json_path.simps(2) int_of_digits_show_nat)
qed

lemma parse_fmt_keys:
  "list_all good_key ks \<Longrightarrow> parse_json_path (concat (map fmt_key ks)) = ks"
proof (induction ks)
  case Nil
  show ?case by simp
next
  case (Cons k ks)
  then have ih: "parse_json_path (concat (map fmt_key ks)) = ks" by simp
  show ?case
  proof (cases k)
    case (Key w)
    with Cons.prems have "w \<noteq> []" "list_all is_word w" by simp_all
    from parse_fmt_Key [OF this sep_start_fmt, of ks] ih Key show ?thesis by simp
  next
    case (Index i)
    from parse_fmt_Index [of i "concat (map fmt_key ks)"] ih Index show ?thesis by simp
  qed
qed


lemma contains_referrers: "contains h p q \<longleftrightarrow> p \<in> set (referrers h q)"
  by (auto simp: contains_def referrers_def)

lemma contains_truthy: "contains h p q \<Longrightarrow> truthy h p"
  by (auto simp: contains_def truthy_def cell_def)

lemma walk_up_good:
  assumes "fresh h c" and "good_step h p q"
  shows "walk_up h c q = [p]"
proof -
  from assms(2) have r: "referrers h q = [p]" by (simp add: good_step_def)
  show ?thesis
  proof (cases "c q")
    case None
    then show ?thesis using r by (simp add: walk_up_def)
  next
    case (Some p')
    with assms(1) have cp: "contains h p' q" by (simp add: fresh_def)
    then have "p' = p" using r by (simp add: contains_referrers)
    moreover have "truthy h p'" using cp by (rule contains_truthy)
    ultimately show ?thesis using Some by (simp add: walk_up_def)
  qed
qed

lemma good_chain_suffix: "good_chain h (xs @ y # ys) \<Longrightarrow> good_chain h (y # ys)"
proof (induction xs)
  case Nil
  then show ?case by simp
next
  case (Cons a xs)
  then show ?case by (cases xs) simp_all
qed

lemma parents_chain:
  assumes "fresh h c"
  shows "is_root h (hd (pre @ [q])) \<Longrightarrow> good_chain h (pre @ q # suf) \<Longrightarrow>
         distinct (pre @ q # suf) \<Longrightarrow>
         find (top_is_root h) (fst (traverse_graph h WalkUp c [(q, suf)] (set suf)))
           = Some (pre @ q # suf)"
proof (induction pre arbitrary: q suf rule: rev_induct)
  case Nil
  then have "is_root h q" and "q \<notin> set suf" by simp_all
  then show ?case by (simp add: Let_def)
next
  case (snoc p pre)
  from snoc.prems(2) have "good_chain h (pre @ p # q # suf)" by simp
  then have "good_chain h (p # q # suf)" by (rule good_chain_suffix)
  then have gs: "good_step h p q" by simp
  then have nr: "\<not> is_root h q" by (simp add: good_step_def)
  have nv: "q \<notin> set suf" using snoc.prems(3) by simp
  have wu: "walk_up h c q = [p]" by (rule walk_up_good [OF assms gs])
  have "find (top_is_root h) (fst (traverse_graph h WalkUp c [(q, suf)] (set suf)))
          = find (top_is_root h) (fst (traverse_graph h WalkUp c [(p, q # suf)] (set (q # suf))))"
    using nr nv wu by (simp add: Let_def)
  also have "\<dots> = Some (pre @ p # q # suf)"
  proof (rule snoc.IH)
    show "is_root h (hd (pre @ [p]))" using snoc.prems(1) by (cases pre) simp_all
    show "good_chain h (pre @ p # q # suf)" using snoc.prems(2) by simp
    show "distinct (pre @ p # q # suf)" using snoc.prems(3) by simp
  qed
  finally show ?case by simp
qed

lemma list_index_bound:
  "list_index h vs v n = Inr i \<Longrightarrow> n \<le> i \<and> i < n + length vs"
proof (induction vs arbitrary: n)
  case Nil
  then show ?case by simp
next
  case (Cons x xs)
  show ?case
  proof (cases "py_eq (length h) h x v")
    case None
    with Cons.prems show ?thesis by simp
  next
    case (Some b)
    show ?thesis
    proof (cases b)
      case True
      with Some Cons.prems show ?thesis by simp
    next
      case False
      with Some Cons.prems have "list_index h xs v (Suc n) = Inr i" by simp
      from Cons.IH [OF this] show ?thesis by simp
    qed
  qed
qed

lemma good_step_key:
  assumes "good_step h p q"
  shows "get_json_key h p q = Inr (fmt_key (edge_key h p q))"
    and "good_key (edge_key h p q)"
    and "getitem h (JRef p) (edge_key h p q) = Inr (JRef q)"
proof -
  from assms obtain cont where c: "cell h p = Some cont"
    by (auto simp: good_step_def split: option.splits)
  have "get_json_key h p q = Inr (fmt_key (edge_key h p q))
        \<and> good_key (edge_key h p q)
        \<and> getitem h (JRef p) (edge_key h p q) = Inr (JRef q)"
  proof (cases cont)
    case (JDict rt kvs)
    with assms c obtain key v where
      f: "find (\<lambda>(key, v). v = JRef q) kvs = Some (key, v)"
      and k: "key \<noteq> []" "list_all is_word key" and d: "distinct (map fst kvs)"
      by (auto simp: good_step_def split: option.splits)
    from f obtain i where i: "i < length kvs" "kvs ! i = (key, v)" "v = JRef q"
      by (auto simp: find_Some_iff)
    from i(1) have "kvs ! i \<in> set kvs" by (rule nth_mem)
    with i have "v = JRef q" and "(key, v) \<in> set kvs" by simp_all
    then have "map_of kvs key = Some (JRef q)" using d by simp
    then show ?thesis using c JDict f k
      by (simp add: get_json_key_def edge_key_def)
  next
    case (JList vs)
    with assms c obtain i where
      li: "list_index h vs (JRef q) 0 = Inr i" and v: "vs ! i = JRef q"
      by (auto simp: good_step_def split: sum.splits)
    from list_index_bound [OF li] have "i < length vs" by simp
    then show ?thesis using c JList li v
      by (simp add: get_json_key_def edge_key_def)
  qed
  then show "get_json_key h p q = Inr (fmt_key (edge_key h p q))"
    and "good_key (edge_key h p q)"
    and "getitem h (JRef p) (edge_key h p q) = Inr (JRef q)"
    by simp_all
qed

lemma good_chain_keys:
  "good_chain h chain \<Longrightarrow>
     join_keys h (pairwise chain) = Inr (concat (map fmt_key (chain_keys h chain)))
     \<and> list_all good_key (chain_keys h chain)
     \<and> locate_keys h (JRef (hd chain)) (chain_keys h chain) = Inr (Some (JRef (last chain)))"
proof (induction h chain rule: good_chain.induct)
  case (1 h)
  then show ?case by simp
next
  case (2 h x)
  show ?case by (simp add: pairwise_def)
next
  case (3 h p q ps)
  then have gs: "good_step h p q" and gc: "good_chain h (q # ps)" by simp_all
  note ih = "3.IH" [OF gc]
  note k = good_step_key [OF gs]
  have pw: "pairwise (p # q # ps) = (p, q) # pairwise (q # ps)" by (simp add: pairwise_def)
  have "join_keys h (pairwise (p # q # ps))
          = Inr (concat (map fmt_key (chain_keys h (p # q # ps))))"
    using ih k(1) by (simp add: pw)
  moreover have "list_all good_key (chain_keys h (p # q # ps))"
    using ih k(2) by simp
  moreover have "locate_keys h (JRef (hd (p # q # ps))) (chain_keys h (p # q # ps))
                   = Inr (Some (JRef (last (p # q # ps))))"
    using ih k(3) by simp
  ultimately show ?case by blast
qed


text \<open>
  Claim C1, as amended. Let \<open>x\<close> be a container other than the root, reachable from the
  root \<open>r\<close> by a chain of containers \<open>r, \<dots>, x\<close> without repetition in which every
  container has exactly one incoming edge, every object key is a non-empty run of word
  characters, and in every array the first element equal to the next container of the chain
  is that container itself; let no entry of the parent cache be stale. Then \<^verbatim>\<open>parents(x)\<close>
  is the chain without \<open>x\<close>, \<^verbatim>\<open>json_path(x)\<close> returns a path, and \<^verbatim>\<open>locate\<close> of that path
  returns \<open>x\<close> itself (the same identity).
\<close>

text \<open>
  Where the round trip holds. Let the chain \<open>r, ps, x\<close> run from a \<^verbatim>\<open>JSONTreeRoot\<close> \<open>r\<close>
  down to \<open>x\<close> over edges that are \<open>good_step\<close>s, and let the parent cache hold no stale
  entry. Then \<^verbatim>\<open>parents(x)\<close> is that chain, \<^verbatim>\<open>json_path(x)\<close> returns a path, and
  \<^verbatim>\<open>locate\<close> resolves the path from \<open>r\<close> to the object \<open>x\<close> itself.
\<close>

lemma path_round_trip:
  assumes "fresh h c" and "is_root h r" and "good_chain h (r # ps @ [x])"
    and "distinct (r # ps @ [x])"
  shows "fst (parents h c x) = Some (r # ps)
         \<and> (\<exists>path. fst (json_path h c x) = Inr path
                \<and> locate h r path = Inr (Some (JRef x)))"
proof -
  have "find (top_is_root h) (fst (traverse_graph h WalkUp c [(x, [])] (set [])))
          = Some ((r # ps) @ x # [])"
    by (rule parents_chain [OF assms(1)]) (use assms in simp_all)
  then have f: "find (top_is_root h) (fst (traverse_graph h WalkUp c [(x, [])] {}))
                  = Some (r # ps @ [x])"
    by simp
  have p: "fst (parents h c x) = Some (r # ps)"
    unfolding parents_def f by (simp add: butlast_append)
  note k = good_chain_keys [OF assms(3)]
  define path where "path = concat (map fmt_key (chain_keys h (r # ps @ [x])))"
  have j: "join_keys h (pairwise ((r # ps) @ [x])) = Inr path"
    using k by (simp add: path_def)
  have "fst (json_path h c x) = Inr path"
    using j by (simp add: json_path_def Let_def p)
  moreover have "parse_json_path path = chain_keys h (r # ps @ [x])"
    unfolding path_def by (rule parse_fmt_keys) (use k in simp)
  then have "locate h r path = Inr (Some (JRef x))"
    using k by (simp add: locate_def)
  ultimately show ?thesis using p by blast
qed

lemma ex_doc_chain: "good_chain ex_doc (0 # [1] @ [3])"
  by code_simp

lemma path_round_trip_example:
  "fst (parents ex_doc Map.empty 3) = Some [0, 1]
   \<and> (\<exists>path. fst (json_path ex_doc Map.empty 3) = Inr path
          \<and> locate ex_doc 0 path = Inr (Some (JRef 3)))"
proof -
  have f: "fresh ex_doc Map.empty" by (simp add: fresh_def)
  have r: "is_root ex_doc 0" by (simp add: is_root_def cell_def ex_doc_def)
  have d: "distinct (0 # [1] @ [3 :: nat])" by simp
  from path_round_trip [OF f r ex_doc_chain d] show ?thesis by simp
qed

text \<open>
  A key that is not made of word characters is printed as it is, and the path
  \<^verbatim>\<open>.a-b\<close> that \<^verbatim>\<open>json_path\<close> produces is read back by \<^verbatim>\<open>parse_json_path\<close> as the two
  keys \<^verbatim>\<open>a\<close> and \<^verbatim>\<open>b\<close>, so that \<^verbatim>\<open>locate\<close> returns \<^verbatim>\<open>None\<close>.
\<close>

lemma nonword_key_path:
  "is_root ex_dash 0 \<and> contains ex_dash 0 1
   \<and> fst (json_path ex_dash Map.empty 1) = Inr ''.a-b''
   \<and> parse_json_path ''.a-b'' = [Key ''a'', Key ''b'']
   \<and> locate ex_dash 0 ''.a-b'' = Inr None"
proof -
  have "is_root ex_dash 0" by (simp add: is_root_def cell_def ex_dash_def)
  moreover have "contains ex_dash 0 1" by (simp add: contains_def ex_dash_def)
  moreover have "fst (json_path ex_dash Map.empty 1) = Inr ''.a-b''" by code_simp
  moreover have "parse_json_path ''.a-b'' = [Key ''a'', Key ''b'']" by code_simp
  moreover have "locate ex_dash 0 ''.a-b'' = Inr None" by code_simp
  ultimately show ?thesis by simp
qed

text \<open>
  Claim C1: in a document that is a tree, resolving the path produced for a container \<open>x\<close>
  reachable from the root should give back the object \<open>x\<close> itself. The code does not do so
  for the document \<^verbatim>\<open>{"a": [{}, {}]}\<close>: every container but the root has exactly one
  referrer, yet the path produced for the second element of the list is \<^verbatim>\<open>.a[0]\<close>, and
  \<^verbatim>\<open>locate\<close> resolves it to the first element. The array branch of \<^verbatim>\<open>_get_json_key\<close>
  looks the child up with \<^verbatim>\<open>parent.index(child)\<close>, which compares by value, where the dict
  branch compares by identity.
\<close>

theorem equal_siblings_share_path:
  "is_root ex_twins 0 \<and> referrers ex_twins 1 = [0]
   \<and> referrers ex_twins 2 = [1] \<and> referrers ex_twins 3 = [1]
   \<and> fst (parents ex_twins Map.empty 3) = Some [0, 1]
   \<and> fst (json_path ex_twins Map.empty 3) = Inr ''.a[0]''
   \<and> locate ex_twins 0 ''.a[0]'' = Inr (Some (JRef 2))"
proof -
  have "is_root ex_twins 0" by (simp add: is_root_def cell_def ex_twins_def)
  moreover have "referrers ex_twins 1 = [0]" by code_simp
  moreover have "referrers ex_twins 2 = [1]" by code_simp
  moreover have "referrers ex_twins 3 = [1]" by code_simp
  moreover have "fst (parents ex_twins Map.empty 3) = Some [0, 1]" by code_simp
  moreover have "fst (json_path ex_twins Map.empty 3) = Inr ''.a[0]''" by code_simp
  moreover have "locate ex_twins 0 ''.a[0]'' = Inr (Some (JRef 2))" by code_simp
  ultimately show ?thesis by simp
qed

end
